theory Spec2Isabelle
  imports Complex_Main "HOL-Library.AList" "HOL-Library.Char_ord" "HOL-Library.List_Lexorder"
begin

section \<open>Exceptions as values\<close>

text \<open>
  Every exception that \<^verbatim>\<open>fill\<close> can let escape is a value of \<open>error\<close>; a function that
  may raise returns \<open>error + 'a\<close>, with \<open>Inl\<close> for the exception. \<open>LibraryError\<close> stands for
  whatever tskit itself raises from \<^verbatim>\<open>ts.node\<close> and \<^verbatim>\<open>ts.population\<close>.
\<close>

datatype error = UnboundLocalError | KeyError | IndexError | LibraryError

definition lookup :: "('k \<rightharpoonup> 'v) \<Rightarrow> 'k \<Rightarrow> error + 'v" where
  \<comment> \<open>Python's \<^verbatim>\<open>d[k]\<close> on a dict.\<close>
  "lookup d k = (case d k of None \<Rightarrow> Inl KeyError | Some v \<Rightarrow> Inr v)"

fun map_result :: "('a \<Rightarrow> error + 'b) \<Rightarrow> 'a list \<Rightarrow> error + 'b list" where
  \<comment> \<open>A list comprehension whose element expression may raise: the first exception escapes.\<close>
  "map_result f [] = Inr []"
| "map_result f (x # xs) =
     (case f x of
        Inl e \<Rightarrow> Inl e
      | Inr y \<Rightarrow> (case map_result f xs of Inl e \<Rightarrow> Inl e | Inr ys \<Rightarrow> Inr (y # ys)))"

section \<open>The tree sequence as tskit presents it\<close>

text \<open>
  The metadata of an individual and of a population is the JSON object that
  \<^verbatim>\<open>json.loads\<close> returns, kept as the list of its items. \<^verbatim>\<open>ts.individuals()\<close> yields
  the rows of the individual table in order, the \<^verbatim>\<open>id\<close> of a row being its position.
  \<^verbatim>\<open>ts.node(i)\<close> and \<^verbatim>\<open>ts.population(i)\<close> are the accessors of the library: each returns
  a row or raises. An allele is a string or \<^verbatim>\<open>None\<close>; a genotype is an allele index, or
  \<open>-1\<close> for a missing call. \<^verbatim>\<open>ts.samples()\<close> lists the ids of the sample nodes; the
  genotypes of a variant have one entry per sample node, in that order, so that entry
  \<open>j\<close> is the call of node \<^verbatim>\<open>ts.samples()[j]\<close>. \<^verbatim>\<open>fill\<close> never calls \<^verbatim>\<open>ts.samples()\<close>.
\<close>

record tskit_node =
  node_population :: int
  node_individual :: int

record tskit_individual =
  metadata :: "(string \<times> string) list"
  nodes :: "int list"

record tskit_population =
  population_metadata :: "(string \<times> string) list"

record tskit_variant =
  alleles :: "string option list"
  genotypes :: "int list"

record tree_sequence =
  ts_individuals :: "tskit_individual list"
  ts_node :: "int \<Rightarrow> error + tskit_node"
  ts_population :: "int \<Rightarrow> error + tskit_population"
  ts_samples :: "int list"
  ts_variants :: "tskit_variant list"

section \<open>The store\<close>

text \<open>
  The two tables of the SQLite file, each as the list of its rows. The counters are SQLite
  integers, taken here as unbounded.
\<close>

record individual_row =
  row_id :: int
  name :: string
  region :: string
  all_regions :: int
  some_regions :: int
  one_region :: int
  one_person :: int

record database =
  individual_table :: "individual_row list"
  num_regions_table :: "(string \<times> int) list"

datatype column = All_regions | Some_regions | One_region | One_person

fun column_name :: "column \<Rightarrow> string" where
  "column_name All_regions = ''all_regions''"
| "column_name Some_regions = ''some_regions''"
| "column_name One_region = ''one_region''"
| "column_name One_person = ''one_person''"

fun counter :: "column \<Rightarrow> individual_row \<Rightarrow> int" where
  "counter All_regions r = all_regions r"
| "counter Some_regions r = some_regions r"
| "counter One_region r = one_region r"
| "counter One_person r = one_person r"

definition init :: database where
  \<comment> \<open>\<^verbatim>\<open>init\<close>: both tables created, one zero total per category.\<close>
  "init = \<lparr>individual_table = [],
           num_regions_table =
             map (\<lambda>field. (field, 0))
               [''all_regions'', ''some_regions'', ''one_region'', ''one_person'']\<rparr>"

fun increment :: "column \<Rightarrow> individual_row \<Rightarrow> individual_row" where
  \<comment> \<open>\<^verbatim>\<open>SET {column}={column}+1\<close> on one row.\<close>
  "increment All_regions r = r\<lparr>all_regions := all_regions r + 1\<rparr>"
| "increment Some_regions r = r\<lparr>some_regions := some_regions r + 1\<rparr>"
| "increment One_region r = r\<lparr>one_region := one_region r + 1\<rparr>"
| "increment One_person r = r\<lparr>one_person := one_person r + 1\<rparr>"

definition update_individual :: "column \<Rightarrow> int \<Rightarrow> individual_row list \<Rightarrow> individual_row list" where
  \<comment> \<open>\<^verbatim>\<open>UPDATE individual SET {column}={column}+1 WHERE id=?\<close>\<close>
  "update_individual c i rows = map (\<lambda>r. if row_id r = i then increment c r else r) rows"

definition update_num_regions :: "column \<Rightarrow> (string \<times> int) list \<Rightarrow> (string \<times> int) list" where
  \<comment> \<open>\<^verbatim>\<open>UPDATE num_regions SET number=number+1 WHERE name=?\<close>\<close>
  "update_num_regions c rows =
     map (\<lambda>(nm, number). if nm = column_name c then (nm, number + 1) else (nm, number)) rows"

section \<open>Identity resolution (the loop over \<^verbatim>\<open>ts.individuals()\<close>)\<close>

text \<open>
  The local variables that the loop reads and writes. \<open>source\<close> and \<open>individual_name\<close> are
  locals of the function, not of the loop body: unbound (\<open>None\<close>) before their first
  assignment, and afterwards holding whatever the last assignment left. \<open>individuals\<close>
  is a dict keyed by name, kept as the list of its items in insertion order; an entry is
  the triple of \<^verbatim>\<open>id\<close>, \<^verbatim>\<open>name\<close> and \<^verbatim>\<open>region\<close>.
\<close>

record resolver_state =
  source :: "string option"
  individual_name :: "string option"
  individual_regions :: "int \<rightharpoonup> string"
  individuals :: "(string \<times> (int \<times> string \<times> string)) list"

definition initial_state :: resolver_state where
  "initial_state = \<lparr>source = None, individual_name = None,
                    individual_regions = Map.empty, individuals = []\<rparr>"

definition name_and_source ::
  "resolver_state \<Rightarrow> (string \<times> string) list \<Rightarrow> string option \<times> string option" where
  \<comment> \<open>The \<^verbatim>\<open>if/elif/elif\<close> on the metadata keys: no branch taken leaves both variables as
      they were.\<close>
  "name_and_source st individual_metadata =
     (if map_of individual_metadata ''sgdp_id'' \<noteq> None
        then (Some ''SGDP'', map_of individual_metadata ''sgdp_id'')
      else if map_of individual_metadata ''sample'' \<noteq> None
        then (Some ''HGDP'', map_of individual_metadata ''sample'')
      else if map_of individual_metadata ''individual_id'' \<noteq> None
        then (Some ''TGP'', map_of individual_metadata ''individual_id'')
      else (source st, individual_name st))"

definition population_name :: "tree_sequence \<Rightarrow> tskit_individual \<Rightarrow> error + string" where
  \<comment> \<open>\<^verbatim>\<open>ts.population(ts.node(individual.nodes[0]).population)\<close>, then \<^verbatim>\<open>['name']\<close> of
      its metadata.\<close>
  "population_name ts ind =
     (case nodes ind of
        [] \<Rightarrow> Inl IndexError
      | n # _ \<Rightarrow>
          (case ts_node ts n of
             Inl e \<Rightarrow> Inl e
           | Inr nd \<Rightarrow>
               (case ts_population ts (node_population nd) of
                  Inl e \<Rightarrow> Inl e
                | Inr p \<Rightarrow> lookup (map_of (population_metadata p)) ''name'')))"

definition resolve ::
  "((string \<times> string) \<times> string) list \<Rightarrow> tree_sequence \<Rightarrow> resolver_state \<Rightarrow>
     nat \<times> tskit_individual \<Rightarrow> error + resolver_state" where
  \<comment> \<open>One pass of the loop body, for the individual \<open>ind\<close> at position \<open>i\<close>.\<close>
  "resolve regions ts st p =
     (case p of (i, ind) \<Rightarrow>
        (case name_and_source st (metadata ind) of (src, nm) \<Rightarrow>
           (case population_name ts ind of
              Inl e \<Rightarrow> Inl e
            | Inr pn \<Rightarrow>
                (case src of
                   None \<Rightarrow> Inl UnboundLocalError
                 | Some s \<Rightarrow>
                     (case lookup (map_of regions) (s, pn) of
                        Inl e \<Rightarrow> Inl e
                      | Inr rg \<Rightarrow>
                          (case nm of
                             None \<Rightarrow> Inl UnboundLocalError
                           | Some n \<Rightarrow>
                               Inr \<lparr>source = Some s, individual_name = Some n,
                                    individual_regions = (individual_regions st)(int i \<mapsto> rg),
                                    individuals =
                                      AList.update n (int i, n, rg) (individuals st)\<rparr>))))))"

fun resolve_all ::
  "((string \<times> string) \<times> string) list \<Rightarrow> tree_sequence \<Rightarrow> resolver_state \<Rightarrow>
     (nat \<times> tskit_individual) list \<Rightarrow> error + resolver_state" where
  "resolve_all regions ts st [] = Inr st"
| "resolve_all regions ts st (p # ps) =
     (case resolve regions ts st p of
        Inl e \<Rightarrow> Inl e
      | Inr st' \<Rightarrow> resolve_all regions ts st' ps)"

section \<open>Identifier reconciliation\<close>

definition new_row :: "int \<times> string \<times> string \<Rightarrow> individual_row" where
  \<comment> \<open>\<^verbatim>\<open>VALUES (?, ?, ?, 0, 0, 0, 0)\<close>\<close>
  "new_row i = (case i of (ident, nm, rg) \<Rightarrow>
     \<lparr>row_id = ident, name = nm, region = rg,
      all_regions = 0, some_regions = 0, one_region = 0, one_person = 0\<rparr>)"

fun sql_ids_of_rows ::
  "(string \<times> (int \<times> string \<times> string)) list \<Rightarrow> (int \<rightharpoonup> int) \<Rightarrow> individual_row list \<Rightarrow>
     error + (int \<rightharpoonup> int)" where
  \<comment> \<open>\<^verbatim>\<open>{individuals[row['name']]['id']: row['id'] for row in rows}\<close>\<close>
  "sql_ids_of_rows inds m [] = Inr m"
| "sql_ids_of_rows inds m (row # rows) =
     (case lookup (map_of inds) (name row) of
        Inl e \<Rightarrow> Inl e
      | Inr i \<Rightarrow> sql_ids_of_rows inds (m(fst i \<mapsto> row_id row)) rows)"

definition reconcile ::
  "(string \<times> (int \<times> string \<times> string)) list \<Rightarrow> database \<Rightarrow> error + ((int \<rightharpoonup> int) \<times> database)" where
  "reconcile inds db =
     (let rows = individual_table db in
      if rows \<noteq> [] then
        (case sql_ids_of_rows inds Map.empty rows of
           Inl e \<Rightarrow> Inl e
         | Inr sql_ids \<Rightarrow> Inr (sql_ids, db))
      else
        (let sql_ids = fold (\<lambda>i m. m(fst i \<mapsto> fst i)) (map snd inds) Map.empty;
             entries = map snd inds
         in Inr (sql_ids, db\<lparr>individual_table := rows @ map new_row entries\<rparr>)))"

section \<open>Classification and aggregation (the loop over \<^verbatim>\<open>ts.variants()\<close>)\<close>

definition num_regions :: "((string \<times> string) \<times> string) list \<Rightarrow> nat" where
  \<comment> \<open>\<^verbatim>\<open>len(set(populations.regions.values()))\<close>\<close>
  "num_regions regions = length (remdups (map snd regions))"

definition carriers :: "tree_sequence \<Rightarrow> tskit_variant \<Rightarrow> nat \<Rightarrow> error + int list" where
  \<comment> \<open>\<^verbatim>\<open>individual_ids\<close>: a Python set, kept as a list without repetition.\<close>
  "carriers ts variant allele_index =
     (let node_ids = filter (\<lambda>j. genotypes variant ! j = int allele_index)
                       [0..<length (genotypes variant)]
      in case map_result (\<lambda>node. ts_node ts (int node)) node_ids of
           Inl e \<Rightarrow> Inl e
         | Inr full_nodes \<Rightarrow> Inr (remdups (map node_individual full_nodes)))"

definition classify :: "(int \<rightharpoonup> string) \<Rightarrow> nat \<Rightarrow> int list \<Rightarrow> error + column" where
  "classify ind_regions n_regions individual_ids =
     (if length individual_ids = 1 then Inr One_person
      else
        (case map_result (lookup ind_regions) individual_ids of
           Inl e \<Rightarrow> Inl e
         | Inr rs \<Rightarrow>
             (let region_count = length (remdups rs) in
              if region_count = 1 then Inr One_region
              else if region_count < n_regions then Inr Some_regions
              else Inr All_regions)))"

definition apply_event :: "column \<Rightarrow> int list \<Rightarrow> database \<Rightarrow> database" where
  \<comment> \<open>The \<^verbatim>\<open>executemany\<close> over the carriers' stored identifiers, then the one update of
      the totals.\<close>
  "apply_event c params db =
     db\<lparr>individual_table := fold (update_individual c) params (individual_table db),
        num_regions_table := update_num_regions c (num_regions_table db)\<rparr>"

definition truthy :: "string option \<Rightarrow> bool" where
  \<comment> \<open>Python's truth value of an allele: \<^verbatim>\<open>None\<close> and the empty string are false.\<close>
  "truthy allele = (case allele of None \<Rightarrow> False | Some s \<Rightarrow> s \<noteq> [])"

definition process_allele ::
  "tree_sequence \<Rightarrow> (int \<rightharpoonup> string) \<Rightarrow> nat \<Rightarrow> (int \<rightharpoonup> int) \<Rightarrow> tskit_variant \<Rightarrow>
     database \<Rightarrow> nat \<times> string option \<Rightarrow> error + database" where
  "process_allele ts ind_regions n_regions sql_ids variant db p =
     (case p of (allele_index, allele) \<Rightarrow>
        if allele_index = 0 \<or> \<not> truthy allele then Inr db
        else
          (case carriers ts variant allele_index of
             Inl e \<Rightarrow> Inl e
           | Inr individual_ids \<Rightarrow>
               (case classify ind_regions n_regions individual_ids of
                  Inl e \<Rightarrow> Inl e
                | Inr c \<Rightarrow>
                    (case map_result (lookup sql_ids) individual_ids of
                       Inl e \<Rightarrow> Inl e
                     | Inr params \<Rightarrow> Inr (apply_event c params db)))))"

fun process_alleles ::
  "tree_sequence \<Rightarrow> (int \<rightharpoonup> string) \<Rightarrow> nat \<Rightarrow> (int \<rightharpoonup> int) \<Rightarrow> tskit_variant \<Rightarrow>
     database \<Rightarrow> (nat \<times> string option) list \<Rightarrow> error + database" where
  "process_alleles ts ind_regions n_regions sql_ids variant db [] = Inr db"
| "process_alleles ts ind_regions n_regions sql_ids variant db (p # ps) =
     (case process_allele ts ind_regions n_regions sql_ids variant db p of
        Inl e \<Rightarrow> Inl e
      | Inr db' \<Rightarrow> process_alleles ts ind_regions n_regions sql_ids variant db' ps)"

fun process_variants ::
  "tree_sequence \<Rightarrow> (int \<rightharpoonup> string) \<Rightarrow> nat \<Rightarrow> (int \<rightharpoonup> int) \<Rightarrow> database \<Rightarrow>
     tskit_variant list \<Rightarrow> error + database" where
  "process_variants ts ind_regions n_regions sql_ids db [] = Inr db"
| "process_variants ts ind_regions n_regions sql_ids db (variant # vs) =
     (case process_alleles ts ind_regions n_regions sql_ids variant db
             (enumerate 0 (alleles variant)) of
        Inl e \<Rightarrow> Inl e
      | Inr db' \<Rightarrow> process_variants ts ind_regions n_regions sql_ids db' vs)"

section \<open>\<^verbatim>\<open>fill\<close>\<close>

text \<open>
  \<open>regions\<close> is \<^verbatim>\<open>populations.regions\<close>, the dict from (source, population name) to
  region, as the list of its items. The result is the committed store; an exception
  leaves before \<^verbatim>\<open>database.commit()\<close>. After the loop over the variants the progress
  line reads \<^verbatim>\<open>vnum\<close>, which is unbound when there was no variant.
\<close>

definition fill ::
  "((string \<times> string) \<times> string) list \<Rightarrow> tree_sequence \<Rightarrow> database \<Rightarrow> error + database" where
  "fill regions ts db =
     (case resolve_all regions ts initial_state (enumerate 0 (ts_individuals ts)) of
        Inl e \<Rightarrow> Inl e
      | Inr st \<Rightarrow>
          (case reconcile (individuals st) db of
             Inl e \<Rightarrow> Inl e
           | Inr (sql_ids, db1) \<Rightarrow>
               (case process_variants ts (individual_regions st) (num_regions regions)
                       sql_ids db1 (ts_variants ts) of
                  Inl e \<Rightarrow> Inl e
                | Inr db2 \<Rightarrow>
                    if ts_variants ts = [] then Inl UnboundLocalError else Inr db2)))"

section \<open>\<^verbatim>\<open>fetch\<close>\<close>

text \<open>
  The query of \<^verbatim>\<open>fetch\<close>: \<^verbatim>\<open>GROUP BY region\<close> makes one group per distinct region,
  \<^verbatim>\<open>ORDER BY region\<close> sorts the groups by the bytes of the region, and \<^verbatim>\<open>AVG\<close> is the
  sum of a column over the group divided by the size of the group. SQLite returns the
  quotient as a floating point number; here it is the exact quotient.
\<close>

definition avg :: "int list \<Rightarrow> real" where
  "avg xs = real_of_int (sum_list xs) / real (length xs)"

definition fetch :: "database \<Rightarrow> (string \<times> real \<times> real \<times> real \<times> real) list" where
  "fetch db =
     map (\<lambda>g. let grp = filter (\<lambda>r. region r = g) (individual_table db)
              in (g, avg (map all_regions grp), avg (map some_regions grp),
                     avg (map one_region grp), avg (map one_person grp)))
       (sort (remdups (map region (individual_table db))))"

section \<open>Notions used in the statements\<close>

text \<open>The regions of the carriers: the set that \<^verbatim>\<open>region_count\<close> counts.\<close>

definition carrier_regions :: "(int \<rightharpoonup> string) \<Rightarrow> int list \<Rightarrow> string set" where
  "carrier_regions ind_regions individual_ids =
     {rg. \<exists>i \<in> set individual_ids. ind_regions i = Some rg}"

text \<open>
  The category as a reading against the dataset would assign it: the carriers' regions
  are measured against the distinct regions present among the individuals of the
  dataset, where \<open>classify\<close> measures them against the static mapping.
\<close>

definition claimed_category :: "string list \<Rightarrow> int list \<Rightarrow> string list \<Rightarrow> column" where
  "claimed_category dataset_regions individual_ids regions_of_carriers =
     (if length individual_ids = 1 then One_person
      else if length (remdups regions_of_carriers) = 1 then One_region
      else if 1 < length (remdups regions_of_carriers)
              \<and> length (remdups regions_of_carriers) < length (remdups dataset_regions)
        then Some_regions
      else All_regions)"

text \<open>
  What the loop over the individuals maintains of the dict \<open>individuals\<close>: the keys are
  pairwise different, so are the ids of the entries, each entry carries its key as its
  name, and \<open>individual_regions\<close> gives the entry's id the entry's region.
\<close>

definition well_keyed :: "(int \<rightharpoonup> string) \<Rightarrow> (string \<times> (int \<times> string \<times> string)) list \<Rightarrow> bool" where
  "well_keyed ir inds \<longleftrightarrow>
     distinct (map fst inds) \<and> distinct (map (\<lambda>p. fst (snd p)) inds)
     \<and> (\<forall>p \<in> set inds. fst (snd (snd p)) = fst p \<and> ir (fst (snd p)) = Some (snd (snd (snd p))))"

text \<open>The columns of a row that identify the individual.\<close>

definition ident :: "individual_row \<Rightarrow> int \<times> string \<times> string" where
  "ident r = (row_id r, name r, region r)"

text \<open>
  Two stores with the same identifying columns and the same names of totals, the second
  ahead of the first by \<open>d j c\<close> in counter \<open>c\<close> of row \<open>j\<close> and by \<open>e j\<close> in total \<open>j\<close>.
\<close>

definition shifted :: "(nat \<Rightarrow> column \<Rightarrow> int) \<Rightarrow> (nat \<Rightarrow> int) \<Rightarrow> database \<Rightarrow> database \<Rightarrow> bool" where
  "shifted d e db db' \<longleftrightarrow>
     map ident (individual_table db') = map ident (individual_table db)
     \<and> (\<forall>j < length (individual_table db). \<forall>c.
           counter c (individual_table db' ! j) = counter c (individual_table db ! j) + d j c)
     \<and> map fst (num_regions_table db') = map fst (num_regions_table db)
     \<and> (\<forall>j < length (num_regions_table db).
           snd (num_regions_table db' ! j) = snd (num_regions_table db ! j) + e j)"

text \<open>
  What an individual's own metadata and nodes say of it: the name under its name key and
  the source that the key stands for (\<open>None\<close> when it has none of the three keys), the
  region of the static mapping for that source and the population of its first node, and
  the row that an empty store should receive for the individual at position \<open>i\<close>.
\<close>

definition own_name :: "tskit_individual \<Rightarrow> string option" where
  "own_name ind = snd (name_and_source initial_state (metadata ind))"

definition own_source :: "tskit_individual \<Rightarrow> string option" where
  "own_source ind = fst (name_and_source initial_state (metadata ind))"

definition own_region ::
  "((string \<times> string) \<times> string) list \<Rightarrow> tree_sequence \<Rightarrow> tskit_individual \<Rightarrow> string option" where
  "own_region regions ts ind =
     (case own_source ind of
        None \<Rightarrow> None
      | Some s \<Rightarrow>
          (case population_name ts ind of
             Inl e \<Rightarrow> None
           | Inr pn \<Rightarrow> map_of regions (s, pn)))"

definition own_row ::
  "((string \<times> string) \<times> string) list \<Rightarrow> tree_sequence \<Rightarrow> nat \<times> tskit_individual \<Rightarrow>
     individual_row" where
  "own_row regions ts p =
     \<lparr>row_id = int (fst p), name = the (own_name (snd p)),
      region = the (own_region regions ts (snd p)),
      all_regions = 0, some_regions = 0, one_region = 0, one_person = 0\<rparr>"

text \<open>
  The carrier set as the specification words it: the sample nodes carrying the allele
  (entry \<open>j\<close> of the genotypes is the call of the \<open>j\<close>-th sample node), each mapped to
  its owning individual, without repetition. \<open>carriers\<close> is what the code computes: it
  reads the position \<open>j\<close> itself as the id of a node.
\<close>

definition spec_carriers :: "tree_sequence \<Rightarrow> tskit_variant \<Rightarrow> nat \<Rightarrow> error + int list" where
  "spec_carriers ts variant allele_index =
     (let positions = filter (\<lambda>j. genotypes variant ! j = int allele_index)
                        [0..<length (genotypes variant)];
          sample_nodes = map (\<lambda>j. ts_samples ts ! j) positions
      in case map_result (ts_node ts) sample_nodes of
           Inl e \<Rightarrow> Inl e
         | Inr full_nodes \<Rightarrow> Inr (remdups (map node_individual full_nodes)))"

section \<open>Example data\<close>

text \<open>
  A static mapping with three regions, and a tree sequence with two diploid individuals
  from two of them. Its one variant has the derived allele \<^verbatim>\<open>G\<close> on a node of each
  individual, an empty allele and a missing one.
\<close>

definition demo_regions :: "((string \<times> string) \<times> string) list" where
  "demo_regions = [((''SGDP'', ''p0''), ''A''), ((''HGDP'', ''p1''), ''B''),
                   ((''TGP'', ''p2''), ''C'')]"

definition demo_variant :: tskit_variant where
  "demo_variant = \<lparr>alleles = [Some ''A'', Some ''G'', Some '''', None], genotypes = [0, 1, 1, -1]\<rparr>"

definition demo_ts :: tree_sequence where
  "demo_ts =
     \<lparr>ts_individuals =
        [\<lparr>metadata = [(''sgdp_id'', ''ann'')], nodes = [0, 1]\<rparr>,
         \<lparr>metadata = [(''sample'', ''bob'')], nodes = [2, 3]\<rparr>],
      ts_node =
        (\<lambda>i. if i = 0 \<or> i = 1 then Inr \<lparr>node_population = 0, node_individual = 0\<rparr>
             else if i = 2 \<or> i = 3 then Inr \<lparr>node_population = 1, node_individual = 1\<rparr>
             else Inl LibraryError),
      ts_population =
        (\<lambda>i. if i = 0 then Inr \<lparr>population_metadata = [(''name'', ''p0'')]\<rparr>
             else if i = 1 then Inr \<lparr>population_metadata = [(''name'', ''p1'')]\<rparr>
             else Inl LibraryError),
      ts_samples = [0, 1, 2, 3],
      ts_variants = [demo_variant]\<rparr>"

text \<open>
  What \<open>fill\<close> computes on the example: the resolver's state after the loop over the
  individuals, the identifiers and the store after reconciliation against the fresh
  store, the store after one run, and the store after a second run.
\<close>

definition demo_state :: resolver_state where
  "demo_state =
     \<lparr>source = Some ''HGDP'', individual_name = Some ''bob'',
      individual_regions = [0 \<mapsto> ''A'', 1 \<mapsto> ''B''],
      individuals = [(''ann'', (0, ''ann'', ''A'')), (''bob'', (1, ''bob'', ''B''))]\<rparr>"

definition demo_sql_ids :: "int \<rightharpoonup> int" where
  "demo_sql_ids = [0 \<mapsto> 0, 1 \<mapsto> 1]"

definition demo_reconciled :: database where
  "demo_reconciled =
     \<lparr>individual_table =
        [\<lparr>row_id = 0, name = ''ann'', region = ''A'',
          all_regions = 0, some_regions = 0, one_region = 0, one_person = 0\<rparr>,
         \<lparr>row_id = 1, name = ''bob'', region = ''B'',
          all_regions = 0, some_regions = 0, one_region = 0, one_person = 0\<rparr>],
      num_regions_table =
        [(''all_regions'', 0), (''some_regions'', 0), (''one_region'', 0), (''one_person'', 0)]\<rparr>"

definition demo_filled :: database where
  "demo_filled =
     \<lparr>individual_table =
        [\<lparr>row_id = 0, name = ''ann'', region = ''A'',
          all_regions = 0, some_regions = 1, one_region = 0, one_person = 0\<rparr>,
         \<lparr>row_id = 1, name = ''bob'', region = ''B'',
          all_regions = 0, some_regions = 1, one_region = 0, one_person = 0\<rparr>],
      num_regions_table =
        [(''all_regions'', 0), (''some_regions'', 1), (''one_region'', 0), (''one_person'', 0)]\<rparr>"

definition demo_twice :: database where
  "demo_twice =
     \<lparr>individual_table =
        [\<lparr>row_id = 0, name = ''ann'', region = ''A'',
          all_regions = 0, some_regions = 2, one_region = 0, one_person = 0\<rparr>,
         \<lparr>row_id = 1, name = ''bob'', region = ''B'',
          all_regions = 0, some_regions = 2, one_region = 0, one_person = 0\<rparr>],
      num_regions_table =
        [(''all_regions'', 0), (''some_regions'', 2), (''one_region'', 0), (''one_person'', 0)]\<rparr>"



text \<open>
  A tree sequence whose second individual has none of the three name keys in its
  metadata. The variant is carried by that individual only.
\<close>

definition stale_ts :: tree_sequence where
  "stale_ts =
     \<lparr>ts_individuals =
        [\<lparr>metadata = [(''sgdp_id'', ''ann'')], nodes = [0, 1]\<rparr>,
         \<lparr>metadata = [(''label'', ''zoe'')], nodes = [2, 3]\<rparr>],
      ts_node =
        (\<lambda>i. if i = 0 \<or> i = 1 then Inr \<lparr>node_population = 0, node_individual = 0\<rparr>
             else if i = 2 \<or> i = 3 then Inr \<lparr>node_population = 0, node_individual = 1\<rparr>
             else Inl LibraryError),
      ts_population =
        (\<lambda>i. if i = 0 then Inr \<lparr>population_metadata = [(''name'', ''p0'')]\<rparr>
             else Inl LibraryError),
      ts_samples = [0, 1, 2, 3],
      ts_variants = [\<lparr>alleles = [Some ''A'', Some ''G''], genotypes = [0, 0, 1, 0]\<rparr>]\<rparr>"

text \<open>A store with one region of two individuals.\<close>

definition east_store :: database where
  "east_store =
     \<lparr>individual_table =
        [\<lparr>row_id = 0, name = ''ann'', region = ''East'',
          all_regions = 2, some_regions = 1, one_region = 0, one_person = 0\<rparr>,
         \<lparr>row_id = 1, name = ''bob'', region = ''East'',
          all_regions = 0, some_regions = 1, one_region = 2, one_person = 0\<rparr>],
      num_regions_table =
        [(''all_regions'', 1), (''some_regions'', 1), (''one_region'', 1), (''one_person'', 0)]\<rparr>"

text \<open>
  A tree sequence whose sample nodes are not its first nodes: nodes 0 and 1 are ancestors
  that belong to no individual, nodes 2 and 3 are the samples of the first individual,
  nodes 4 and 5 those of the second. The derived allele of its variant is on node 4, the
  third sample, and on no other. \<open>offset_filled\<close> is the store after \<open>fill\<close> on a fresh
  store.
\<close>

definition offset_variant :: tskit_variant where
  "offset_variant = \<lparr>alleles = [Some ''A'', Some ''G''], genotypes = [0, 0, 1, 0]\<rparr>"

definition offset_ts :: tree_sequence where
  "offset_ts =
     \<lparr>ts_individuals =
        [\<lparr>metadata = [(''sgdp_id'', ''ann'')], nodes = [2, 3]\<rparr>,
         \<lparr>metadata = [(''sample'', ''bob'')], nodes = [4, 5]\<rparr>],
      ts_node =
        (\<lambda>i. if i = 0 \<or> i = 1 then Inr \<lparr>node_population = 0, node_individual = - 1\<rparr>
             else if i = 2 \<or> i = 3 then Inr \<lparr>node_population = 0, node_individual = 0\<rparr>
             else if i = 4 \<or> i = 5 then Inr \<lparr>node_population = 1, node_individual = 1\<rparr>
             else Inl LibraryError),
      ts_population =
        (\<lambda>i. if i = 0 then Inr \<lparr>population_metadata = [(''name'', ''p0'')]\<rparr>
             else if i = 1 then Inr \<lparr>population_metadata = [(''name'', ''p1'')]\<rparr>
             else Inl LibraryError),
      ts_samples = [2, 3, 4, 5],
      ts_variants = [offset_variant]\<rparr>"

definition offset_filled :: database where
  "offset_filled =
     \<lparr>individual_table =
        [\<lparr>row_id = 0, name = ''ann'', region = ''A'',
          all_regions = 0, some_regions = 0, one_region = 0, one_person = 1\<rparr>,
         \<lparr>row_id = 1, name = ''bob'', region = ''B'',
          all_regions = 0, some_regions = 0, one_region = 0, one_person = 0\<rparr>],
      num_regions_table =
        [(''all_regions'', 0), (''some_regions'', 0), (''one_region'', 0), (''one_person'', 1)]\<rparr>"

text \<open>
  A tree sequence whose two individuals have the same name in their metadata, with a
  variant carried by the second only, and the resolver's state after the loop over its
  individuals.
\<close>

definition twin_ts :: tree_sequence where
  "twin_ts =
     \<lparr>ts_individuals =
        [\<lparr>metadata = [(''sgdp_id'', ''ann'')], nodes = [0, 1]\<rparr>,
         \<lparr>metadata = [(''sgdp_id'', ''ann'')], nodes = [2, 3]\<rparr>],
      ts_node =
        (\<lambda>i. if i = 0 \<or> i = 1 then Inr \<lparr>node_population = 0, node_individual = 0\<rparr>
             else if i = 2 \<or> i = 3 then Inr \<lparr>node_population = 0, node_individual = 1\<rparr>
             else Inl LibraryError),
      ts_population =
        (\<lambda>i. if i = 0 then Inr \<lparr>population_metadata = [(''name'', ''p0'')]\<rparr>
             else Inl LibraryError),
      ts_samples = [0, 1, 2, 3],
      ts_variants = [\<lparr>alleles = [Some ''A'', Some ''G''], genotypes = [0, 0, 1, 0]\<rparr>]\<rparr>"





section \<open>Lookups and comprehensions\<close>

lemma map_result_Inr_iff: "map_result f xs = Inr ys \<longleftrightarrow> map f xs = map Inr ys"
proof (induction xs arbitrary: ys)
  case Nil
  then show ?case by auto
next
  case (Cons x xs)
  have IH: "\<And>zs. (map f xs = map Inr zs) = (map_result f xs = Inr zs)"
    using Cons.IH by simp
  show ?case
    by (cases "f x"; cases ys) (auto simp: IH split: sum.splits)
qed

lemma lookup_Inr: "lookup m k = Inr v \<longleftrightarrow> m k = Some v"
  by (simp add: lookup_def split: option.splits)

lemma map_lookup_eq: "map (lookup m) xs = map Inr ys \<longleftrightarrow> map m xs = map Some ys"
proof (induction xs arbitrary: ys)
  case Nil
  show ?case by auto
next
  case (Cons x xs)
  show ?case by (cases ys) (auto simp: lookup_Inr Cons.IH)
qed

lemma map_result_lookup_Inr:
  "map_result (lookup m) xs = Inr ys \<longleftrightarrow> map m xs = map Some ys"
  by (simp add: map_result_Inr_iff map_lookup_eq)

lemma map_result_lookup_the:
  assumes "map_result (lookup m) xs = Inr ys"
  shows "ys = map (\<lambda>x. the (m x)) xs" and "set xs \<subseteq> dom m"
proof -
  have eq: "map m xs = map Some ys" using assms by (simp add: map_result_lookup_Inr)
  have "map (\<lambda>x. the (m x)) xs = map the (map m xs)" by simp
  also have "\<dots> = ys" by (simp add: eq)
  finally show "ys = map (\<lambda>x. the (m x)) xs" by simp
  show "set xs \<subseteq> dom m"
  proof
    fix x assume "x \<in> set xs"
    then have "m x \<in> set (map m xs)" by simp
    then have "m x \<in> set (map Some ys)" by (simp only: eq)
    then show "x \<in> dom m" by auto
  qed
qed

lemma map_result_lookup_Inl:
  "map_result (lookup m) xs = Inl e \<Longrightarrow> e = KeyError \<and> \<not> set xs \<subseteq> dom m"
proof (induction xs)
  case Nil
  then show ?case by simp
next
  case (Cons x xs)
  show ?case
  proof (cases "m x")
    case None
    then have l: "lookup m x = Inl KeyError" by (simp add: lookup_def)
    have "e = KeyError" using Cons.prems by (simp add: l)
    moreover have "x \<notin> dom m" using None by (simp add: dom_def)
    ultimately show ?thesis by simp
  next
    case (Some y)
    then have l: "lookup m x = Inr y" by (simp add: lookup_def)
    have "map_result (lookup m) xs = Inl e"
      using Cons.prems by (simp add: l split: sum.splits)
    from Cons.IH [OF this] show ?thesis by auto
  qed
qed

lemma map_result_lookup_total:
  "set xs \<subseteq> dom m \<Longrightarrow> \<exists>ys. map_result (lookup m) xs = Inr ys"
proof (induction xs)
  case Nil
  then show ?case by simp
next
  case (Cons x xs)
  then obtain y ys where y: "m x = Some y" and ys: "map_result (lookup m) xs = Inr ys"
    by auto
  from y have "lookup m x = Inr y" by (simp add: lookup_def)
  with ys show ?case by simp
qed

lemma map_result_lookup_order:
  assumes "set xs = set ys" and "map_result (lookup m) xs = Inl e"
  shows "map_result (lookup m) ys = Inl e"
proof (cases "map_result (lookup m) ys")
  case (Inl e')
  from map_result_lookup_Inl [OF assms(2)] map_result_lookup_Inl [OF Inl] show ?thesis
    by (simp add: Inl)
next
  case (Inr zs)
  from map_result_lookup_the(2) [OF Inr] map_result_lookup_Inl [OF assms(2)] assms(1)
  show ?thesis by simp
qed

section \<open>The examples, evaluated\<close>

lemmas eval_defs = fill_def initial_state_def resolve_def name_and_source_def
      population_name_def lookup_def reconcile_def new_row_def num_regions_def process_allele_def carriers_def
      classify_def apply_event_def truthy_def update_individual_def update_num_regions_def init_def

lemma demo_resolve:
  "resolve_all demo_regions demo_ts initial_state (enumerate 0 (ts_individuals demo_ts)) = Inr demo_state"
  by (simp add: eval_defs demo_regions_def demo_ts_def demo_state_def)

lemma demo_carriers: "carriers demo_ts demo_variant 1 = Inr [0, 1]"
  by (simp add: carriers_def demo_ts_def demo_variant_def upt_rec)

lemma demo_classify:
  "classify (individual_regions demo_state) (num_regions demo_regions) [0, 1] = Inr Some_regions"
  by (simp add: classify_def demo_state_def num_regions_def demo_regions_def lookup_def)

lemma demo_fill: "fill demo_regions demo_ts init = Inr demo_filled"
  by (simp add: eval_defs demo_regions_def demo_ts_def demo_variant_def demo_filled_def upt_rec)

lemma demo_reconcile:
  "reconcile (individuals demo_state) init = Inr (demo_sql_ids, demo_reconciled)"
  by (simp add: reconcile_def demo_state_def init_def demo_sql_ids_def demo_reconciled_def new_row_def)

lemma demo_event:
  "process_allele demo_ts (individual_regions demo_state) (num_regions demo_regions) demo_sql_ids
     demo_variant demo_reconciled (1, Some ''G'') = Inr demo_filled"
  by (simp add: eval_defs demo_regions_def demo_ts_def demo_variant_def demo_filled_def upt_rec
        demo_state_def demo_sql_ids_def demo_reconciled_def)




section \<open>The carrier set and its category\<close>

lemma carriers_Inr:
  assumes "carriers ts v k = Inr ids"
  shows "distinct ids"
    and "set ids = {node_individual nd | j nd. j < length (genotypes v) \<and>
            genotypes v ! j = int k \<and> ts_node ts (int j) = Inr nd}"
proof -
  obtain full_nodes where
    fn: "map_result (\<lambda>node. ts_node ts (int node))
           (filter (\<lambda>j. genotypes v ! j = int k) [0..<length (genotypes v)]) = Inr full_nodes"
    and ids: "ids = remdups (map node_individual full_nodes)"
    using assms by (auto simp: carriers_def split: sum.splits)
  show "distinct ids" by (simp add: ids)
  have m: "map (\<lambda>node. ts_node ts (int node))
             (filter (\<lambda>j. genotypes v ! j = int k) [0..<length (genotypes v)]) = map Inr full_nodes"
    using fn by (simp add: map_result_Inr_iff)
  have "set full_nodes = {nd. \<exists>j. j < length (genotypes v) \<and> genotypes v ! j = int k
                               \<and> ts_node ts (int j) = Inr nd}"
  proof -
    have "Inr ` set full_nodes = (\<lambda>node. ts_node ts (int node)) `
            {j. j < length (genotypes v) \<and> genotypes v ! j = int k}"
      using arg_cong [OF m, of set] by auto
    then show ?thesis by (auto simp: image_iff set_eq_iff) (metis Inr_inject)+
  qed
  then show "set ids = {node_individual nd | j nd. j < length (genotypes v) \<and>
            genotypes v ! j = int k \<and> ts_node ts (int j) = Inr nd}"
    by (auto simp: ids)
qed

text \<open>
  The code's carrier set is the specification's when the sample nodes are the first
  nodes of the tree sequence, in order.
\<close>

lemma map_result_map: "map_result f (map g xs) = map_result (\<lambda>x. f (g x)) xs"
  by (induction xs) (simp_all split: sum.splits)

lemma map_result_cong_set:
  assumes "\<And>x. x \<in> set xs \<Longrightarrow> f x = g x"
  shows "map_result f xs = map_result g xs"
  using assms
proof (induction xs)
  case Nil
  show ?case by simp
next
  case (Cons a xs)
  have "f a = g a" using Cons.prems by simp
  moreover have "map_result f xs = map_result g xs"
    using Cons.prems by (intro Cons.IH) simp
  ultimately show ?case by (cases "g a") simp_all
qed

lemma spec_carriers_eq_carriers:
  assumes "ts_samples ts = map int [0..<length (genotypes v)]"
  shows "spec_carriers ts v k = carriers ts v k"
proof -
  let ?P = "filter (\<lambda>j. genotypes v ! j = int k) [0..<length (genotypes v)]"
  have "map_result (\<lambda>j. ts_node ts (ts_samples ts ! j)) ?P =
        map_result (\<lambda>node. ts_node ts (int node)) ?P"
    by (rule map_result_cong_set) (simp add: assms)
  then have e: "map_result (ts_node ts) (map (\<lambda>j. ts_samples ts ! j) ?P) =
                map_result (\<lambda>node. ts_node ts (int node)) ?P"
    by (simp only: map_result_map)
  show ?thesis
    unfolding spec_carriers_def carriers_def Let_def e ..
qed

lemma classify_Inr:
  assumes "classify ir n ids = Inr c" and "distinct ids"
  shows "c = (if card (set ids) = 1 then One_person
              else if card (carrier_regions ir ids) = 1 then One_region
              else if card (carrier_regions ir ids) < n then Some_regions
              else All_regions)"
proof (cases "length ids = 1")
  case True
  then show ?thesis using assms by (simp add: classify_def distinct_card)
next
  case False
  then obtain rs where rs: "map_result (lookup ir) ids = Inr rs"
    using assms by (auto simp: classify_def split: sum.splits)
  have "set rs = carrier_regions ir ids"
    using map_result_lookup_the [OF rs] by (auto simp: carrier_regions_def dom_def subset_iff) force
  then have "length (remdups rs) = card (carrier_regions ir ids)"
    by (simp add: length_remdups_card_conv)
  then show ?thesis using assms False rs
    by (simp add: classify_def distinct_card Let_def split: if_splits)
qed

lemma classify_dom:
  assumes "classify ir n ids = Inr c" and "length ids \<noteq> 1"
  shows "set ids \<subseteq> dom ir"
proof -
  obtain rs where rs: "map_result (lookup ir) ids = Inr rs"
    using assms by (auto simp: classify_def split: sum.splits)
  then show ?thesis by (rule map_result_lookup_the(2))
qed

text \<open>
  \<open>classify\<close> written out. The carrier set is a Python set, whose order of iteration
  the model fixes arbitrarily; the category and the exception depend on the set only,
  as does a failing lookup of the stored identifiers.
\<close>

lemma classify_eq:
  assumes "distinct ids"
  shows "classify ir n ids =
           (if card (set ids) = 1 then Inr One_person
            else if \<not> set ids \<subseteq> dom ir then Inl KeyError
            else Inr (if card (carrier_regions ir ids) = 1 then One_region
                      else if card (carrier_regions ir ids) < n then Some_regions
                      else All_regions))"
proof (cases "length ids = 1")
  case True
  then show ?thesis using assms by (simp add: classify_def distinct_card)
next
  case one: False
  show ?thesis
  proof (cases "set ids \<subseteq> dom ir")
    case True
    from map_result_lookup_total [OF this] obtain rs where
      "map_result (lookup ir) ids = Inr rs" by blast
    then obtain c where c: "classify ir n ids = Inr c"
      using one by (cases "classify ir n ids") (auto simp: classify_def Let_def split: if_splits)
    from classify_Inr [OF c assms] c True one assms show ?thesis
      by (simp add: distinct_card)
  next
    case False
    have "\<exists>e. map_result (lookup ir) ids = Inl e"
    proof (cases "map_result (lookup ir) ids")
      case (Inl e)
      then show ?thesis by simp
    next
      case (Inr rs)
      from map_result_lookup_the(2) [OF this] False show ?thesis by simp
    qed
    then obtain e where e: "map_result (lookup ir) ids = Inl e" by blast
    from map_result_lookup_Inl [OF e] e one False assms show ?thesis
      by (simp add: classify_def distinct_card)
  qed
qed

lemma classify_order:
  assumes "distinct ids" and "distinct ids'" and "set ids = set ids'"
  shows "classify ir n ids = classify ir n ids'"
proof -
  have "carrier_regions ir ids = carrier_regions ir ids'"
    by (simp add: carrier_regions_def assms(3))
  then show ?thesis
    by (simp add: classify_eq [OF assms(1)] classify_eq [OF assms(2)] assms(3))
qed

lemma num_regions_card: "num_regions regions = card (snd ` set regions)"
  by (simp add: num_regions_def length_remdups_card_conv)

lemma resolve_regions:
  assumes "resolve regions ts st p = Inr st'" and "individual_regions st' i = Some rg"
  shows "individual_regions st i = Some rg \<or> rg \<in> snd ` set regions"
  using assms
  by (auto simp: resolve_def lookup_def split: prod.splits sum.splits option.splits if_splits
           dest!: map_of_SomeD) force

lemma resolve_all_regions:
  assumes "resolve_all regions ts st ps = Inr st'" and "individual_regions st' i = Some rg"
  shows "individual_regions st i = Some rg \<or> rg \<in> snd ` set regions"
  using assms
proof (induction ps arbitrary: st)
  case Nil
  then show ?case by simp
next
  case (Cons p ps)
  then obtain st1 where 1: "resolve regions ts st p = Inr st1"
    and 2: "resolve_all regions ts st1 ps = Inr st'"
    by (auto split: sum.splits)
  from Cons.IH [OF 2 Cons.prems(2)] resolve_regions [OF 1] show ?case by blast
qed

lemma carrier_regions_bound:
  assumes "resolve_all regions ts initial_state ps = Inr st"
  shows "carrier_regions (individual_regions st) ids \<subseteq> snd ` set regions"
proof
  fix rg assume "rg \<in> carrier_regions (individual_regions st) ids"
  then obtain i where "individual_regions st i = Some rg"
    by (auto simp: carrier_regions_def)
  from resolve_all_regions [OF assms this] show "rg \<in> snd ` set regions"
    by (simp add: initial_state_def)
qed

lemma one_region_iff:
  assumes "set ids \<subseteq> dom ir" and "ids \<noteq> []"
  shows "card (carrier_regions ir ids) = 1 \<longleftrightarrow> (\<exists>rg. \<forall>i \<in> set ids. ir i = Some rg)"
proof
  assume "card (carrier_regions ir ids) = 1"
  then obtain rg where R: "carrier_regions ir ids = {rg}"
    by (auto simp: card_1_singleton_iff)
  have "ir i = Some rg" if "i \<in> set ids" for i
  proof -
    from that assms(1) obtain x where x: "ir i = Some x" by (meson domD subsetD)
    with that have "x \<in> carrier_regions ir ids" by (auto simp: carrier_regions_def)
    with R x show ?thesis by simp
  qed
  then show "\<exists>rg. \<forall>i \<in> set ids. ir i = Some rg" by blast
next
  assume "\<exists>rg. \<forall>i \<in> set ids. ir i = Some rg"
  then obtain rg where rg: "\<forall>i \<in> set ids. ir i = Some rg" by blast
  from assms(2) obtain i where "i \<in> set ids" by (cases ids) auto
  with rg have "carrier_regions ir ids = {rg}"
    by (auto simp: carrier_regions_def)
  then show "card (carrier_regions ir ids) = 1" by simp
qed

text \<open>
  Claim C1, with the count taken where the code takes it. For an allele with at least
  one carrier, the category of the duplicate-free carrier list is \<open>one_person\<close> exactly
  when the list holds one individual, whatever the region; otherwise \<open>one_region\<close>
  exactly when all carriers have the same region; \<open>some_regions\<close> exactly when their
  distinct regions number more than one but fewer than the distinct regions of the
  static mapping \<^verbatim>\<open>populations.regions\<close>; and \<open>all_regions\<close> exactly when they number more
  than one and as many as the distinct regions of the static mapping. The count is that
  of the static mapping, not of the regions present in the dataset.
\<close>

theorem classification_against_static_mapping:
  assumes "resolve_all regions ts initial_state (enumerate 0 (ts_individuals ts)) = Inr st"
    and "distinct ids" and "ids \<noteq> []"
    and "classify (individual_regions st) (num_regions regions) ids = Inr c"
  shows "num_regions regions = card (snd ` set regions)
       \<and> (c = One_person \<longleftrightarrow> card (set ids) = 1)
       \<and> (c = One_region \<longleftrightarrow>
            card (set ids) \<noteq> 1 \<and> (\<exists>rg. \<forall>i \<in> set ids. individual_regions st i = Some rg))
       \<and> (c = Some_regions \<longleftrightarrow>
            card (set ids) \<noteq> 1 \<and> 1 < card (carrier_regions (individual_regions st) ids)
            \<and> card (carrier_regions (individual_regions st) ids) < card (snd ` set regions))
       \<and> (c = All_regions \<longleftrightarrow>
            card (set ids) \<noteq> 1 \<and> 1 < card (carrier_regions (individual_regions st) ids)
            \<and> card (carrier_regions (individual_regions st) ids) = card (snd ` set regions))"
proof -
  let ?R = "carrier_regions (individual_regions st) ids"
  let ?N = "card (snd ` set regions)"
  have n: "num_regions regions = ?N" by (rule num_regions_card)
  have sub: "?R \<subseteq> snd ` set regions" using assms(1) by (rule carrier_regions_bound)
  then have le: "card ?R \<le> ?N" by (simp add: card_mono)
  have c: "c = (if card (set ids) = 1 then One_person
              else if card ?R = 1 then One_region
              else if card ?R < ?N then Some_regions
              else All_regions)"
    using classify_Inr [OF assms(4,2)] by (simp only: n)
  show ?thesis
  proof (cases "card (set ids) = 1")
    case True
    with c n show ?thesis by simp
  next
    case False
    then have ne: "length ids \<noteq> 1" using assms(2) by (simp add: distinct_card)
    have dom: "set ids \<subseteq> dom (individual_regions st)"
      using assms(4) ne by (rule classify_dom)
    note same = one_region_iff [OF dom assms(3)]
    have fin: "finite ?R" by (rule finite_subset [OF sub]) simp
    from assms(3) obtain i where i: "i \<in> set ids" by (cases ids) auto
    with dom obtain rg where "individual_regions st i = Some rg" by (meson domD subsetD)
    with i have "rg \<in> ?R" by (auto simp: carrier_regions_def)
    with fin have pos: "1 \<le> card ?R" by (metis One_nat_def Suc_leI card_gt_0_iff empty_iff)
    show ?thesis
    proof (cases "card ?R = 1")
      case True
      with c False n same show ?thesis by simp
    next
      case R: False
      with same have ns: "\<not> (\<exists>rg. \<forall>i \<in> set ids. individual_regions st i = Some rg)" by simp
      from R pos have gt: "1 < card ?R" by simp
      show ?thesis
      proof (cases "card ?R < ?N")
        case True
        with c False R n ns gt show ?thesis by simp
      next
        case N: False
        with le have "card ?R = ?N" by simp
        with c False R N n ns gt show ?thesis by simp
      qed
    qed
  qed
qed

theorem classification_against_static_mapping_witness:
  "classify (individual_regions demo_state) (num_regions demo_regions) [0, 1] = Inr Some_regions
   \<and> card (set [0, 1 :: int]) \<noteq> 1
   \<and> 1 < card (carrier_regions (individual_regions demo_state) [0, 1])
   \<and> card (carrier_regions (individual_regions demo_state) [0, 1]) < card (snd ` set demo_regions)"
proof -
  have 2: "distinct [0, 1 :: int]" by simp
  have 3: "[0, 1 :: int] \<noteq> []" by simp
  from classification_against_static_mapping [OF demo_resolve 2 3 demo_classify] demo_classify
  show ?thesis by simp
qed

text \<open>
  Claim C1 as worded measures the carriers against the regions present in the dataset.
  With three regions in the static mapping and a dataset whose two individuals live in
  two of them, an allele carried by both covers every region of the dataset, yet the
  code counts it under \<open>some_regions\<close>.
\<close>

theorem classification_by_dataset_regions_counterexample:
  "fill demo_regions demo_ts init = Inr demo_filled
   \<and> map some_regions (individual_table demo_filled) = [1, 1]
   \<and> map all_regions (individual_table demo_filled) = [0, 0]
   \<and> carriers demo_ts demo_variant 1 = Inr [0, 1]
   \<and> map_result (lookup (individual_regions demo_state)) [0, 1] = Inr [''A'', ''B'']
   \<and> classify (individual_regions demo_state) (num_regions demo_regions) [0, 1] = Inr Some_regions
   \<and> claimed_category (map region (individual_table demo_filled)) [0, 1] [''A'', ''B'']
       = All_regions"
  using demo_fill demo_carriers demo_classify
  by (simp add: demo_filled_def claimed_category_def demo_state_def lookup_def)

section \<open>Skipped alleles\<close>

lemma process_alleles_skip:
  "process_alleles ts ir n sq v db ps =
   process_alleles ts ir n sq v db (filter (\<lambda>p. fst p \<noteq> 0 \<and> truthy (snd p)) ps)"
  by (induction ps arbitrary: db) (auto simp: process_allele_def split: sum.splits)

text \<open>
  Claim C4. The allele at index 0 and every allele that is empty (or \<^verbatim>\<open>None\<close>) leave the
  store as it is and raise nothing, whatever the genotypes; and the pass over the
  alleles of a variant is the pass over the remaining alleles only.
\<close>

theorem skipped_alleles:
  "process_allele ts ir n sq v db (0, allele) = Inr db
   \<and> process_allele ts ir n sq v db (k, Some []) = Inr db
   \<and> process_allele ts ir n sq v db (k, None) = Inr db
   \<and> process_alleles ts ir n sq v db ps =
       process_alleles ts ir n sq v db (filter (\<lambda>p. fst p \<noteq> 0 \<and> truthy (snd p)) ps)"
  using process_alleles_skip [of ts ir n sq v db ps]
  by (simp add: process_allele_def truthy_def)

theorem skipped_alleles_witness:
  "process_alleles demo_ts Map.empty 3 Map.empty demo_variant init
     [(0, Some ''A''), (1, Some ''''), (2, None)] = Inr init"
proof -
  have f: "filter (\<lambda>p. fst p \<noteq> 0 \<and> truthy (snd p))
             [(0 :: nat, Some ''A''), (1, Some ''''), (2, None)] = []"
    by (simp add: truthy_def)
  have "process_alleles demo_ts Map.empty 3 Map.empty demo_variant init
          [(0, Some ''A''), (1, Some ''''), (2, None)] =
        process_alleles demo_ts Map.empty 3 Map.empty demo_variant init
          (filter (\<lambda>p. fst p \<noteq> 0 \<and> truthy (snd p))
             [(0, Some ''A''), (1, Some ''''), (2, None)])"
    using skipped_alleles [of demo_ts Map.empty 3 Map.empty demo_variant init "Some ''A''" 1
      "[(0, Some ''A''), (1, Some ''''), (2, None)]"]
    by blast
  then show ?thesis
    unfolding f by (simp only: process_alleles.simps(1))
qed

section \<open>Failures of the identity resolver\<close>

lemma resolve_all_append:
  "resolve_all regions ts st (ps @ qs) =
     (case resolve_all regions ts st ps of
        Inl e \<Rightarrow> Inl e
      | Inr st' \<Rightarrow> resolve_all regions ts st' qs)"
  by (induction ps arbitrary: st) (auto split: sum.splits)

text \<open>
  Claim C7. When the (source, population name) pair of an individual is absent from the
  static mapping, the loop body raises \<^verbatim>\<open>KeyError\<close> at that individual and \<open>fill\<close> ends
  with that exception: the individual is neither skipped nor given a default region.
\<close>

theorem missing_region_aborts:
  assumes "ts_individuals ts = pre @ ind # post"
    and "resolve_all regions ts initial_state (enumerate 0 pre) = Inr st"
    and "name_and_source st (metadata ind) = (Some src, nm)"
    and "population_name ts ind = Inr pn"
    and "map_of regions (src, pn) = None"
  shows "resolve regions ts st (length pre, ind) = Inl KeyError
       \<and> fill regions ts db = Inl KeyError"
proof -
  have r: "resolve regions ts st (length pre, ind) = Inl KeyError"
    using assms(3-5) by (simp add: resolve_def lookup_def)
  have e: "enumerate 0 (ts_individuals ts) =
             enumerate 0 pre @ (length pre, ind) # enumerate (Suc (length pre)) post"
    by (simp add: assms(1) enumerate_append_eq)
  have "resolve_all regions ts initial_state (enumerate 0 (ts_individuals ts)) = Inl KeyError"
    by (simp add: e resolve_all_append assms(2) r)
  then show ?thesis using r by (simp add: fill_def)
qed

theorem missing_region_aborts_witness:
  "fill [((''SGDP'', ''p0''), ''A'')] demo_ts init = Inl KeyError"
proof -
  let ?regions = "[((''SGDP'', ''p0''), ''A'')]"
  let ?st = "\<lparr>source = Some ''SGDP'', individual_name = Some ''ann'',
      individual_regions = [0 \<mapsto> ''A''],
      individuals = [(''ann'', (0, ''ann'', ''A''))]\<rparr>"
  have 1: "ts_individuals demo_ts =
      [\<lparr>metadata = [(''sgdp_id'', ''ann'')], nodes = [0, 1]\<rparr>]
       @ \<lparr>metadata = [(''sample'', ''bob'')], nodes = [2, 3]\<rparr> # []"
    by (simp add: demo_ts_def)
  have 2: "resolve_all ?regions demo_ts initial_state
             (enumerate 0 [\<lparr>metadata = [(''sgdp_id'', ''ann'')], nodes = [0, 1]\<rparr>]) = Inr ?st"
    by (simp add: eval_defs demo_ts_def)
  have 3: "name_and_source ?st (metadata \<lparr>metadata = [(''sample'', ''bob'')], nodes = [2, 3]\<rparr>)
             = (Some ''HGDP'', Some ''bob'')"
    by (simp add: name_and_source_def)
  have 4: "population_name demo_ts \<lparr>metadata = [(''sample'', ''bob'')], nodes = [2, 3]\<rparr> = Inr ''p1''"
    by (simp add: population_name_def demo_ts_def lookup_def)
  have 5: "map_of ?regions (''HGDP'', ''p1'') = None"
    by simp
  from missing_region_aborts [OF 1 2 3 4 5, of init] show ?thesis by simp
qed

text \<open>
  An individual with none of the three keys stops the run when it is the first of the
  tree sequence: \<open>source\<close> is still unbound.
\<close>

lemma unrecognised_first_individual:
  assumes "ts_individuals ts = ind # rest"
    and "map_of (metadata ind) ''sgdp_id'' = None"
    and "map_of (metadata ind) ''sample'' = None"
    and "map_of (metadata ind) ''individual_id'' = None"
  shows "\<exists>e. fill regions ts db = Inl e"
proof -
  have "name_and_source initial_state (metadata ind) = (None, None)"
    using assms(2-4) by (simp add: name_and_source_def initial_state_def)
  then have "\<exists>e. resolve regions ts initial_state (0, ind) = Inl e"
    by (cases "population_name ts ind") (simp_all add: resolve_def)
  then show ?thesis
    by (auto simp: fill_def assms(1))
qed

text \<open>
  Claim C8 asks that an individual with none of the three keys stop the run. When such an
  individual is not the first, \<open>source\<close> and \<open>individual_name\<close> still hold the values of
  the individual before it, and the run goes on: in the example the second individual is
  filed under the name and the source of the first, whose entry it replaces, and \<open>fill\<close>
  commits a store with the single row of identifier 1 and name \<^verbatim>\<open>ann\<close>.
\<close>

theorem stale_name_reused:
  "resolve_all demo_regions stale_ts initial_state (enumerate 0 (ts_individuals stale_ts)) =
     Inr \<lparr>source = Some ''SGDP'', individual_name = Some ''ann'',
          individual_regions = [0 \<mapsto> ''A'', 1 \<mapsto> ''A''],
          individuals = [(''ann'', (1, ''ann'', ''A''))]\<rparr>
   \<and> fill demo_regions stale_ts init =
       Inr \<lparr>individual_table =
              [\<lparr>row_id = 1, name = ''ann'', region = ''A'',
                all_regions = 0, some_regions = 0, one_region = 0, one_person = 1\<rparr>],
            num_regions_table =
              [(''all_regions'', 0), (''some_regions'', 0), (''one_region'', 0),
               (''one_person'', 1)]\<rparr>"
  by (simp add: eval_defs demo_regions_def stale_ts_def upt_rec)

section \<open>One event on the store\<close>

lemma row_id_increment: "row_id (increment c r) = row_id r"
  by (cases c) simp_all

lemma name_increment: "name (increment c r) = name r"
  by (cases c) simp_all

lemma region_increment: "region (increment c r) = region r"
  by (cases c) simp_all

lemma counter_increment:
  "counter c' (increment c r) = (if c' = c then counter c r + 1 else counter c' r)"
  by (cases c; cases c') simp_all

lemma fold_update_individual:
  "distinct params \<Longrightarrow>
   fold (update_individual c) params rows =
     map (\<lambda>r. if row_id r \<in> set params then increment c r else r) rows"
proof (induction params arbitrary: rows)
  case Nil
  show ?case by simp
next
  case (Cons p ps)
  then show ?case
    by (auto simp: update_individual_def row_id_increment)
qed

text \<open>The rows after an event do not depend on the order of the \<^verbatim>\<open>executemany\<close>.\<close>

lemma apply_event_order:
  assumes "distinct ps" and "distinct qs" and "set ps = set qs"
  shows "apply_event c ps db = apply_event c qs db"
  by (simp add: apply_event_def fold_update_individual assms)

lemma update_num_regions_nth:
  "j < length N \<Longrightarrow>
   update_num_regions c N ! j =
     (fst (N ! j), snd (N ! j) + (if fst (N ! j) = column_name c then 1 else 0))"
  by (simp add: update_num_regions_def split: prod.splits)

lemma process_allele_Inr:
  assumes "process_allele ts ir n sq v db (k, a) = Inr db'" and "k \<noteq> 0" and "truthy a"
  shows "\<exists>ids c params. carriers ts v k = Inr ids \<and> classify ir n ids = Inr c
           \<and> map_result (lookup sq) ids = Inr params \<and> db' = apply_event c params db"
  using assms by (auto simp: process_allele_def split: sum.splits)

lemma fold_identity_map:
  "fold (\<lambda>i m. m(fst i \<mapsto> fst i)) es m k = (if k \<in> fst ` set es then Some k else m k)"
  by (induction es arbitrary: m) auto

lemma disjoint_after_insert:
  "R' \<subseteq> insert x R \<Longrightarrow> x \<notin> S \<Longrightarrow> R \<inter> S = {} \<Longrightarrow> R' \<inter> S = {}"
  by blast

text \<open>
  With the identifiers of the stored rows pairwise different, as the primary key has
  them, no two individuals of the dataset are given the same stored identifier.
\<close>

lemma sql_ids_of_rows_inj:
  assumes "sql_ids_of_rows inds m rows = Inr sq"
    and "inj_on m (dom m)"
    and "distinct (map row_id rows)"
    and "ran m \<inter> row_id ` set rows = {}"
  shows "inj_on sq (dom sq)"
  using assms
proof (induction rows arbitrary: m)
  case Nil
  then show ?case by simp
next
  case (Cons row rows)
  then obtain e where e: "map_of inds (name row) = Some e"
    and rest: "sql_ids_of_rows inds (m(fst e \<mapsto> row_id row)) rows = Inr sq"
    by (auto simp: lookup_def split: option.splits sum.splits)
  let ?m = "m(fst e \<mapsto> row_id row)"
  have fresh: "row_id row \<notin> ran m" using Cons.prems(4) by auto
  have 1: "inj_on ?m (dom ?m)"
  proof (rule inj_onI)
    fix a b assume a: "a \<in> dom ?m" and b: "b \<in> dom ?m" and eq: "?m a = ?m b"
    show "a = b"
    proof (cases "a = fst e")
      case True
      show ?thesis
      proof (rule ccontr)
        assume "a \<noteq> b"
        with True eq have "m b = Some (row_id row)" by (simp split: if_splits)
        with fresh show False by (auto simp: ran_def)
      qed
    next
      case False
      show ?thesis
      proof (cases "b = fst e")
        case True
        with False eq have "m a = Some (row_id row)" by (simp split: if_splits)
        with fresh show ?thesis by (auto simp: ran_def)
      next
        case bf: False
        with False a b eq have "a \<in> dom m" "b \<in> dom m" "m a = m b" by auto
        with Cons.prems(2) show ?thesis by (auto dest: inj_onD)
      qed
    qed
  qed
  have 2: "distinct (map row_id rows)" using Cons.prems(3) by simp
  have "ran ?m \<subseteq> insert (row_id row) (ran m)"
    by (auto simp: ran_def split: if_splits)
  moreover have "row_id row \<notin> row_id ` set rows" using Cons.prems(3) by auto
  moreover have "ran m \<inter> row_id ` set rows = {}"
    using Cons.prems(4) by auto
  ultimately have 3: "ran ?m \<inter> row_id ` set rows = {}"
    by (rule disjoint_after_insert)
  from Cons.IH [OF rest 1 2 3] show ?case .
qed

lemma reconcile_inj:
  assumes "reconcile inds db = Inr (sq, db1)"
    and "distinct (map row_id (individual_table db))"
  shows "inj_on sq (dom sq)"
proof (cases "individual_table db = []")
  case True
  then have "sq = fold (\<lambda>i m. m(fst i \<mapsto> fst i)) (map snd inds) Map.empty"
    using assms(1) by (simp add: reconcile_def Let_def)
  then have "\<And>a v. sq a = Some v \<Longrightarrow> v = a"
    by (simp add: fold_identity_map split: if_splits)
  then show ?thesis by (intro inj_onI) (metis domD)
next
  case False
  then have "sql_ids_of_rows inds Map.empty (individual_table db) = Inr sq"
    using assms(1) by (auto simp: reconcile_def Let_def split: sum.splits)
  then show ?thesis
    by (rule sql_ids_of_rows_inj) (simp_all add: assms(2))
qed

lemma sql_ids_of_rows_ran:
  assumes "sql_ids_of_rows inds m rows = Inr sq" and "sq a = Some v"
  shows "m a = Some v \<or> v \<in> row_id ` set rows"
  using assms
proof (induction rows arbitrary: m)
  case Nil
  then show ?case by simp
next
  case (Cons row rows)
  then obtain e where rest: "sql_ids_of_rows inds (m(fst e \<mapsto> row_id row)) rows = Inr sq"
    by (auto simp: lookup_def split: option.splits sum.splits)
  from Cons.IH [OF rest Cons.prems(2)] show ?case
    by (auto split: if_splits)
qed

lemma reconcile_ran:
  assumes "reconcile inds db = Inr (sq, db1)" and "sq a = Some v"
  shows "v \<in> row_id ` set (individual_table db1)"
proof (cases "individual_table db = []")
  case True
  then have sq: "sq = fold (\<lambda>i m. m(fst i \<mapsto> fst i)) (map snd inds) Map.empty"
    and db1: "individual_table db1 = map new_row (map snd inds)"
    using assms(1) by (auto simp: reconcile_def Let_def)
  from assms(2) have "v \<in> fst ` set (map snd inds)"
    by (simp add: sq fold_identity_map split: if_splits)
  then obtain e where "e \<in> set (map snd inds)" and "v = fst e" by auto
  have "new_row e \<in> new_row ` set (map snd inds)"
    using \<open>e \<in> set (map snd inds)\<close> by (rule imageI)
  then have "new_row e \<in> set (individual_table db1)"
    by (simp only: db1 set_map)
  moreover have "row_id (new_row e) = v"
    using \<open>v = fst e\<close> by (cases e) (simp add: new_row_def)
  ultimately show ?thesis
    by (intro image_eqI [where x = "new_row e"]) simp_all
next
  case False
  then have "sql_ids_of_rows inds Map.empty (individual_table db) = Inr sq" and "db1 = db"
    using assms(1) by (auto simp: reconcile_def Let_def split: sum.splits)
  with sql_ids_of_rows_ran [OF this(1) assms(2)] show ?thesis by simp
qed

lemma carriers_params:
  assumes "map_result (lookup sq) ids = Inr params" and "distinct ids" and "inj_on sq (dom sq)"
  shows "distinct params" and "set params = {sid. \<exists>i \<in> set ids. sq i = Some sid}"
proof -
  have p: "params = map (\<lambda>x. the (sq x)) ids" and d: "set ids \<subseteq> dom sq"
    using map_result_lookup_the [OF assms(1)] by auto
  have "inj_on (\<lambda>x. the (sq x)) (set ids)"
  proof (rule inj_onI)
    fix a b assume "a \<in> set ids" "b \<in> set ids" "the (sq a) = the (sq b)"
    have ad: "a \<in> dom sq" and bd: "b \<in> dom sq"
      using d \<open>a \<in> set ids\<close> \<open>b \<in> set ids\<close> by (simp_all add: subset_iff)
    from ad bd obtain x y where x: "sq a = Some x" and y: "sq b = Some y"
      by (auto simp: dom_def)
    with \<open>the (sq a) = the (sq b)\<close> have "sq a = sq b" by simp
    then show "a = b"
      using ad bd by (rule inj_onD [OF assms(3)])
  qed
  then show "distinct params" by (simp add: p distinct_map assms(2))
  show "set params = {sid. \<exists>i \<in> set ids. sq i = Some sid}"
  proof (intro set_eqI iffI)
    fix s assume "s \<in> set params"
    then obtain i where i: "i \<in> set ids" and s: "s = the (sq i)"
      by (auto simp: p)
    from i d obtain x where "sq i = Some x"
      by (meson domD subsetD)
    with i s show "s \<in> {sid. \<exists>i \<in> set ids. sq i = Some sid}"
      by auto
  next
    fix s assume "s \<in> {sid. \<exists>i \<in> set ids. sq i = Some sid}"
    then obtain i where i: "i \<in> set ids" and s: "sq i = Some s"
      by auto
    have "the (sq i) \<in> (\<lambda>x. the (sq x)) ` set ids"
      using i by (rule imageI)
    then show "s \<in> set params"
      by (simp add: p s)
  qed
qed

lemma event_rows:
  assumes "reconcile inds db0 = Inr (sql_ids, db1)"
    and "distinct (map row_id (individual_table db0))"
    and "k \<noteq> 0" and "truthy a"
    and "process_allele ts ir n sql_ids v db (k, a) = Inr db'"
  shows "\<exists>ids c. carriers ts v k = Inr ids \<and> classify ir n ids = Inr c
           \<and> (\<forall>i \<in> set ids. \<exists>sid. sql_ids i = Some sid)
           \<and> individual_table db' =
               map (\<lambda>r. if \<exists>i \<in> set ids. sql_ids i = Some (row_id r) then increment c r else r)
                 (individual_table db)
           \<and> num_regions_table db' = update_num_regions c (num_regions_table db)"
proof -
  from process_allele_Inr [OF assms(5,3,4)] obtain ids c params where
    ids: "carriers ts v k = Inr ids" and c: "classify ir n ids = Inr c"
    and params: "map_result (lookup sql_ids) ids = Inr params"
    and db': "db' = apply_event c params db"
    by blast
  have inj: "inj_on sql_ids (dom sql_ids)" using assms(1,2) by (rule reconcile_inj)
  have d: "distinct ids" using ids by (rule carriers_Inr(1))
  note ps = carriers_params [OF params d inj]
  have "set ids \<subseteq> dom sql_ids" using map_result_lookup_the(2) [OF params] .
  then have dom: "\<forall>i \<in> set ids. \<exists>sid. sql_ids i = Some sid" by auto
  have "individual_table db' =
          map (\<lambda>r. if row_id r \<in> set params then increment c r else r) (individual_table db)"
    by (simp add: db' apply_event_def fold_update_individual [OF ps(1)])
  then have "individual_table db' =
               map (\<lambda>r. if \<exists>i \<in> set ids. sql_ids i = Some (row_id r) then increment c r else r)
                 (individual_table db)"
    by (simp add: ps(2))
  moreover have "num_regions_table db' = update_num_regions c (num_regions_table db)"
    by (simp add: db' apply_event_def)
  ultimately show ?thesis using ids c dom by blast
qed

text \<open>
  What an event does to the rows of the individuals that the code takes for carriers:
  with the identifiers of the reconciliation and a store holding the rows of the
  reconciled store, each of them has a row, in which the counter of the event's category
  is one more than before while the three other counters are as before.
\<close>

lemma event_one_counter:
  assumes "reconcile inds db0 = Inr (sql_ids, db1)"
    and "distinct (map row_id (individual_table db0))"
    and "map row_id (individual_table db) = map row_id (individual_table db1)"
    and "k \<noteq> 0" and "truthy a"
    and "process_allele ts ir n sql_ids v db (k, a) = Inr db'"
  shows "\<exists>ids c. carriers ts v k = Inr ids \<and> classify ir n ids = Inr c
           \<and> length (individual_table db') = length (individual_table db)
           \<and> (\<forall>i \<in> set ids. \<exists>j < length (individual_table db).
                  sql_ids i = Some (row_id (individual_table db ! j)))
           \<and> (\<forall>i \<in> set ids. \<forall>j < length (individual_table db).
                  sql_ids i = Some (row_id (individual_table db ! j)) \<longrightarrow>
                    counter c (individual_table db' ! j) = counter c (individual_table db ! j) + 1
                    \<and> (\<forall>c'. c' \<noteq> c \<longrightarrow>
                          counter c' (individual_table db' ! j) =
                          counter c' (individual_table db ! j)))"
proof -
  from event_rows [OF assms(1,2,4,5,6)] obtain ids c where
    ids: "carriers ts v k = Inr ids" and c: "classify ir n ids = Inr c"
    and dom: "\<forall>i \<in> set ids. \<exists>sid. sql_ids i = Some sid"
    and tbl: "individual_table db' =
               map (\<lambda>r. if \<exists>i \<in> set ids. sql_ids i = Some (row_id r) then increment c r else r)
                 (individual_table db)"
    by blast
  have len: "length (individual_table db') = length (individual_table db)"
    by (simp add: tbl)
  have ex: "\<exists>j < length (individual_table db). sql_ids i = Some (row_id (individual_table db ! j))"
    if "i \<in> set ids" for i
  proof -
    from dom that obtain sid where sid: "sql_ids i = Some sid" by blast
    from reconcile_ran [OF assms(1) sid] have "sid \<in> set (map row_id (individual_table db))"
      by (simp add: assms(3))
    then obtain j where "j < length (individual_table db)" "row_id (individual_table db ! j) = sid"
      by (auto simp: in_set_conv_nth)
    with sid show ?thesis by auto
  qed
  have inc: "counter c (individual_table db' ! j) = counter c (individual_table db ! j) + 1
             \<and> (\<forall>c'. c' \<noteq> c \<longrightarrow>
                   counter c' (individual_table db' ! j) = counter c' (individual_table db ! j))"
    if "i \<in> set ids" and "j < length (individual_table db)"
      and "sql_ids i = Some (row_id (individual_table db ! j))" for i j
  proof -
    from that have "individual_table db' ! j = increment c (individual_table db ! j)"
      by (auto simp: tbl)
    then show ?thesis by (simp add: counter_increment)
  qed
  from ids c len ex inc show ?thesis by blast
qed

text \<open>
  The list that the code computes holds the individuals of the nodes whose id is a
  position with the allele's index, without repetition. The event adds one to the
  counter of its category in each of their rows, leaves the other rows as they are, and
  adds one to each total named by its category and nothing to the other totals.
\<close>

lemma event_rows_and_total:
  assumes "reconcile inds db0 = Inr (sql_ids, db1)"
    and "distinct (map row_id (individual_table db0))"
    and "k \<noteq> 0" and "truthy a"
    and "process_allele ts ir n sql_ids v db (k, a) = Inr db'"
  shows "\<exists>ids c. carriers ts v k = Inr ids \<and> distinct ids
           \<and> set ids = {node_individual nd | j nd. j < length (genotypes v) \<and>
                 genotypes v ! j = int k \<and> ts_node ts (int j) = Inr nd}
           \<and> classify ir n ids = Inr c
           \<and> length (individual_table db') = length (individual_table db)
           \<and> (\<forall>j < length (individual_table db).
                 if \<exists>i \<in> set ids. sql_ids i = Some (row_id (individual_table db ! j))
                 then counter c (individual_table db' ! j) =
                        counter c (individual_table db ! j) + 1
                 else individual_table db' ! j = individual_table db ! j)
           \<and> map fst (num_regions_table db') = map fst (num_regions_table db)
           \<and> (\<forall>j < length (num_regions_table db).
                 snd (num_regions_table db' ! j) =
                   snd (num_regions_table db ! j)
                   + (if fst (num_regions_table db ! j) = column_name c then 1 else 0))"
proof -
  from event_rows [OF assms] obtain ids c where
    ids: "carriers ts v k = Inr ids" and c: "classify ir n ids = Inr c"
    and tbl: "individual_table db' =
               map (\<lambda>r. if \<exists>i \<in> set ids. sql_ids i = Some (row_id r) then increment c r else r)
                 (individual_table db)"
    and tot: "num_regions_table db' = update_num_regions c (num_regions_table db)"
    by blast
  note cs = carriers_Inr [OF ids]
  have len: "length (individual_table db') = length (individual_table db)"
    by (simp add: tbl)
  have rows: "\<forall>j < length (individual_table db).
                 if \<exists>i \<in> set ids. sql_ids i = Some (row_id (individual_table db ! j))
                 then counter c (individual_table db' ! j) =
                        counter c (individual_table db ! j) + 1
                 else individual_table db' ! j = individual_table db ! j"
    by (simp add: tbl counter_increment)
  have names: "map fst (num_regions_table db') = map fst (num_regions_table db)"
    by (simp add: tot update_num_regions_def split_def o_def)
  have totals: "\<forall>j < length (num_regions_table db).
                 snd (num_regions_table db' ! j) =
                   snd (num_regions_table db ! j)
                   + (if fst (num_regions_table db ! j) = column_name c then 1 else 0)"
    by (simp add: tot update_num_regions_nth)
  from ids cs c len rows names totals show ?thesis by blast
qed

text \<open>
  Claim C3 has the carrier set formed from the sample nodes carrying the allele, each
  mapped to its owning individual. \<^verbatim>\<open>fill\<close> takes the positions in the genotype array for
  node ids (\<^verbatim>\<open>node_ids = numpy.where(...)[0]\<close>, then \<^verbatim>\<open>ts.node(node)\<close>). On the tree
  sequence whose samples are nodes 2 to 5, the allele is on node 4, which belongs to the
  second individual; the code looks up node 2, takes the first individual for the one
  carrier, and adds the event to that individual's \<open>one_person\<close> counter.
\<close>

theorem wrong_carrier_set:
  "carriers offset_ts offset_variant 1 = Inr [0]
   \<and> spec_carriers offset_ts offset_variant 1 = Inr [1]
   \<and> fill demo_regions offset_ts init = Inr offset_filled"
  by (simp add: eval_defs spec_carriers_def demo_regions_def offset_ts_def offset_variant_def
        offset_filled_def upt_rec)

text \<open>
  Claim C2 has every individual of the carrier set incremented in exactly one of its four
  counters. On the same tree sequence the one carrier is the second individual, and after
  \<^verbatim>\<open>fill\<close> on a fresh store all four of its counters are still zero, while the first
  individual, who does not carry the allele, has \<open>one_person = 1\<close>.
\<close>

theorem carrier_not_counted:
  "spec_carriers offset_ts offset_variant 1 = Inr [1]
   \<and> map_sum id
        (\<lambda>db. map (\<lambda>r. (row_id r, name r, all_regions r, some_regions r, one_region r, one_person r))
               (individual_table db))
        (fill demo_regions offset_ts init) =
       Inr [(0, ''ann'', 0, 0, 0, 1), (1, ''bob'', 0, 0, 0, 0)]"
  by (simp add: eval_defs spec_carriers_def demo_regions_def offset_ts_def offset_variant_def upt_rec)

section \<open>The dict of individuals\<close>

lemma update_set: "set (AList.update k v al) \<subseteq> insert (k, v) (set al)"
  by (induction al) auto

lemma update_new: "k \<notin> fst ` set al \<Longrightarrow> AList.update k v al = al @ [(k, v)]"
  by (induction al) auto

lemma distinct_ids_update:
  assumes "distinct (map (\<lambda>p. fst (snd p)) al)" and "\<forall>p \<in> set al. fst (snd p) < (i :: int)"
  shows "distinct (map (\<lambda>p. fst (snd p)) (AList.update n (i, x) al))"
  using assms
proof (induction al)
  case Nil
  then show ?case by simp
next
  case (Cons q al)
  show ?case
  proof (cases "fst q = n")
    case True
    have "i \<notin> (\<lambda>p. fst (snd p)) ` set al"
      using Cons.prems(2) by force
    with True Cons.prems(1) show ?thesis by (cases q) auto
  next
    case False
    have "fst (snd q) \<notin> (\<lambda>p. fst (snd p)) ` set (AList.update n (i, x) al)"
    proof
      assume "fst (snd q) \<in> (\<lambda>p. fst (snd p)) ` set (AList.update n (i, x) al)"
      then obtain p where p: "p \<in> set (AList.update n (i, x) al)" and e: "fst (snd q) = fst (snd p)"
        by auto
      from p update_set have "p = (n, (i, x)) \<or> p \<in> set al" by fastforce
      then show False
      proof
        assume "p = (n, (i, x))"
        with e Cons.prems(2) show False by auto
      next
        assume "p \<in> set al"
        with e Cons.prems(1) show False by auto
      qed
    qed
    with False Cons show ?thesis by (cases q) auto
  qed
qed

lemma resolve_Inr:
  assumes "resolve regions ts st (i, ind) = Inr st'"
  shows "\<exists>n rg. individuals st' = AList.update n (int i, n, rg) (individuals st)
           \<and> individual_regions st' = (individual_regions st)(int i \<mapsto> rg)"
  using assms
  apply (auto simp: resolve_def split: prod.splits sum.splits option.splits)
  apply (rule exI, rule exI, rule conjI, rule refl, rule refl)
  done

lemma resolve_well_keyed:
  assumes "resolve regions ts st (i, ind) = Inr st'"
    and "well_keyed (individual_regions st) (individuals st)"
    and "\<forall>p \<in> set (individuals st). fst (snd p) < int i"
  shows "well_keyed (individual_regions st') (individuals st')"
    and "\<forall>p \<in> set (individuals st'). fst (snd p) < int (Suc i)"
proof -
  from resolve_Inr [OF assms(1)] obtain n rg where
    inds: "individuals st' = AList.update n (int i, n, rg) (individuals st)"
    and ir: "individual_regions st' = (individual_regions st)(int i \<mapsto> rg)"
    by blast
  have sub: "set (individuals st') \<subseteq> insert (n, (int i, n, rg)) (set (individuals st))"
    unfolding inds by (rule update_set)
  show b: "\<forall>p \<in> set (individuals st'). fst (snd p) < int (Suc i)"
  proof
    fix p assume "p \<in> set (individuals st')"
    with sub have "p = (n, (int i, n, rg)) \<or> p \<in> set (individuals st)" by auto
    with assms(3) show "fst (snd p) < int (Suc i)" by force
  qed
  have 1: "distinct (map fst (individuals st'))"
    unfolding inds using assms(2) by (simp add: well_keyed_def distinct_update)
  have 2: "distinct (map (\<lambda>p. fst (snd p)) (individuals st'))"
    unfolding inds using assms(2,3) by (intro distinct_ids_update) (simp_all add: well_keyed_def)
  have 3: "fst (snd (snd p)) = fst p \<and> individual_regions st' (fst (snd p)) = Some (snd (snd (snd p)))"
    if "p \<in> set (individuals st')" for p
  proof -
    from that sub have "p = (n, (int i, n, rg)) \<or> p \<in> set (individuals st)" by auto
    then show ?thesis
    proof
      assume "p = (n, (int i, n, rg))"
      then show ?thesis by (simp add: ir)
    next
      assume p: "p \<in> set (individuals st)"
      with assms(3) have "fst (snd p) \<noteq> int i" by force
      with p assms(2) show ?thesis by (simp add: ir well_keyed_def)
    qed
  qed
  from 1 2 3 show "well_keyed (individual_regions st') (individuals st')"
    by (simp add: well_keyed_def)
qed

lemma resolve_all_well_keyed:
  assumes "resolve_all regions ts st (enumerate k xs) = Inr st'"
    and "well_keyed (individual_regions st) (individuals st)"
    and "\<forall>p \<in> set (individuals st). fst (snd p) < int k"
  shows "well_keyed (individual_regions st') (individuals st')"
  using assms
proof (induction xs arbitrary: st k)
  case Nil
  then show ?case by simp
next
  case (Cons x xs)
  then obtain st1 where 1: "resolve regions ts st (k, x) = Inr st1"
    and 2: "resolve_all regions ts st1 (enumerate (Suc k) xs) = Inr st'"
    by (auto split: sum.splits)
  from Cons.IH [OF 2 resolve_well_keyed [OF 1 Cons.prems(2,3)]] show ?case .
qed

lemma resolve_all_initial_well_keyed:
  assumes "resolve_all regions ts initial_state (enumerate 0 xs) = Inr st"
  shows "well_keyed (individual_regions st) (individuals st)"
  using assms by (rule resolve_all_well_keyed) (simp_all add: initial_state_def well_keyed_def)

lemma row_id_new_row: "row_id (new_row e) = fst e"
  and name_new_row: "name (new_row e) = fst (snd e)"
  and region_new_row: "region (new_row e) = snd (snd e)"
  and counter_new_row: "counter c (new_row e) = 0"
  by (cases e; cases c; simp add: new_row_def)+

text \<open>
  When every individual has a name key and no two share a name, the dict holds one entry
  per individual, in order, under the individual's own name, id and region.
\<close>

lemma keyed_name_and_source:
  "own_name ind \<noteq> None \<Longrightarrow> name_and_source st (metadata ind) = (own_source ind, own_name ind)"
  by (auto simp: own_name_def own_source_def name_and_source_def initial_state_def)

lemma resolve_keyed:
  assumes "resolve regions ts st (i, ind) = Inr st'" and "own_name ind \<noteq> None"
  shows "own_region regions ts ind \<noteq> None
         \<and> individuals st' =
             AList.update (the (own_name ind))
               (int i, the (own_name ind), the (own_region regions ts ind)) (individuals st)"
proof -
  note ns = keyed_name_and_source [OF assms(2), of st]
  from assms(1) obtain pn s rg n where
    pn: "population_name ts ind = Inr pn" and s: "own_source ind = Some s"
    and rg: "map_of regions (s, pn) = Some rg" and n: "own_name ind = Some n"
    and st': "individuals st' = AList.update n (int i, n, rg) (individuals st)"
    by (auto simp: resolve_def ns lookup_def split: sum.splits option.splits)
  have "own_region regions ts ind = Some rg"
    by (simp add: own_region_def s pn rg)
  then show ?thesis by (simp add: st' n)
qed

lemma resolve_all_keyed:
  assumes "resolve_all regions ts st (enumerate k xs) = Inr st'"
    and "\<forall>ind \<in> set xs. own_name ind \<noteq> None"
    and "distinct (map own_name xs)"
    and "\<forall>ind \<in> set xs. the (own_name ind) \<notin> fst ` set (individuals st)"
  shows "individuals st' =
           individuals st
           @ map (\<lambda>p. (name (own_row regions ts p), ident (own_row regions ts p))) (enumerate k xs)
         \<and> (\<forall>ind \<in> set xs. own_region regions ts ind \<noteq> None)"
  using assms
proof (induction xs arbitrary: st k)
  case Nil
  then show ?case by simp
next
  case (Cons x xs)
  then obtain st1 where 1: "resolve regions ts st (k, x) = Inr st1"
    and 2: "resolve_all regions ts st1 (enumerate (Suc k) xs) = Inr st'"
    by (auto split: sum.splits)
  let ?n = "the (own_name x)"
  have kx: "own_name x \<noteq> None" using Cons.prems(2) by simp
  from resolve_keyed [OF 1 kx] have rg: "own_region regions ts x \<noteq> None"
    and u: "individuals st1 =
              AList.update ?n (int k, ?n, the (own_region regions ts x)) (individuals st)"
    by simp_all
  have "?n \<notin> fst ` set (individuals st)" using Cons.prems(4) by simp
  then have a: "individuals st1 =
                  individuals st @ [(?n, (int k, ?n, the (own_region regions ts x)))]"
    unfolding u by (rule update_new)
  have keys: "\<forall>ind \<in> set xs. own_name ind \<noteq> None" using Cons.prems(2) by simp
  have dist: "distinct (map own_name xs)" using Cons.prems(3) by simp
  have fresh: "\<forall>ind \<in> set xs. the (own_name ind) \<notin> fst ` set (individuals st1)"
  proof
    fix ind assume i: "ind \<in> set xs"
    have "own_name x \<notin> own_name ` set xs" using Cons.prems(3) by simp
    with i have "own_name ind \<noteq> own_name x" by (metis image_eqI)
    moreover from i keys kx obtain a b where "own_name ind = Some a" "own_name x = Some b"
      by auto
    ultimately have "the (own_name ind) \<noteq> ?n" by simp
    moreover have "the (own_name ind) \<notin> fst ` set (individuals st)"
      using Cons.prems(4) i by simp
    ultimately show "the (own_name ind) \<notin> fst ` set (individuals st1)"
      by (simp add: a)
  qed
  from Cons.IH [OF 2 keys dist fresh] rg show ?case
    by (simp add: a own_row_def ident_def)
qed

lemma resolve_all_own:
  assumes "resolve_all regions ts initial_state (enumerate 0 xs) = Inr st"
    and "\<forall>ind \<in> set xs. own_name ind \<noteq> None"
    and "distinct (map own_name xs)"
  shows "individuals st =
           map (\<lambda>p. (name (own_row regions ts p), ident (own_row regions ts p))) (enumerate 0 xs)"
proof -
  have "\<forall>ind \<in> set xs. the (own_name ind) \<notin> fst ` set (individuals initial_state)"
    by (simp add: initial_state_def)
  from resolve_all_keyed [OF assms this] show ?thesis
    by (simp add: initial_state_def)
qed

lemma new_row_own_row: "new_row (ident (own_row regions ts p)) = own_row regions ts p"
  by (simp add: new_row_def ident_def own_row_def)

lemma in_int_range: "a \<in> int ` {0..<n} \<longleftrightarrow> 0 \<le> a \<and> a < int n"
proof
  assume "a \<in> int ` {0..<n}"
  then show "0 \<le> a \<and> a < int n" by auto
next
  assume "0 \<le> a \<and> a < int n"
  then have "a = int (nat a)" and "nat a \<in> {0..<n}" by auto
  then show "a \<in> int ` {0..<n}" by (rule image_eqI)
qed


section \<open>What a run keeps of the rows\<close>

lemma ident_increment: "ident (increment c r) = ident r"
  by (simp add: ident_def row_id_increment name_increment region_increment)

lemma ident_new_row: "ident (new_row e) = e"
  by (cases e) (simp add: ident_def new_row_def)

lemma ident_update_individual: "map ident (update_individual c i T) = map ident T"
  by (induction T) (simp_all add: update_individual_def ident_increment)

lemma ident_fold_update: "map ident (fold (update_individual c) ps T) = map ident T"
  by (induction ps arbitrary: T) (simp_all add: ident_update_individual)

lemma fst_update_num_regions: "map fst (update_num_regions c N) = map fst N"
  by (induction N) (auto simp: update_num_regions_def)

lemma apply_event_ident:
  "map ident (individual_table (apply_event c ps db)) = map ident (individual_table db)"
  "map fst (num_regions_table (apply_event c ps db)) = map fst (num_regions_table db)"
  by (simp_all add: apply_event_def ident_fold_update fst_update_num_regions)

lemma process_allele_cases:
  assumes "process_allele ts ir n sq v db p = Inr db'"
  shows "db' = db \<or> (\<exists>c ps. db' = apply_event c ps db)"
  using assms by (auto simp: process_allele_def split: prod.splits if_splits sum.splits)

lemma process_allele_ident:
  assumes "process_allele ts ir n sq v db p = Inr db'"
  shows "map ident (individual_table db') = map ident (individual_table db)
         \<and> map fst (num_regions_table db') = map fst (num_regions_table db)"
  using process_allele_cases [OF assms] by (auto simp: apply_event_ident)

lemma process_alleles_ident:
  assumes "process_alleles ts ir n sq v db ps = Inr db'"
  shows "map ident (individual_table db') = map ident (individual_table db)
         \<and> map fst (num_regions_table db') = map fst (num_regions_table db)"
  using assms
proof (induction ps arbitrary: db)
  case Nil
  then show ?case by simp
next
  case (Cons p ps)
  then obtain dbm where 1: "process_allele ts ir n sq v db p = Inr dbm"
    and 2: "process_alleles ts ir n sq v dbm ps = Inr db'"
    by (auto split: sum.splits)
  from Cons.IH [OF 2] process_allele_ident [OF 1] show ?case by simp
qed

lemma process_variants_ident:
  assumes "process_variants ts ir n sq db vs = Inr db'"
  shows "map ident (individual_table db') = map ident (individual_table db)
         \<and> map fst (num_regions_table db') = map fst (num_regions_table db)"
  using assms
proof (induction vs arbitrary: db)
  case Nil
  then show ?case by simp
next
  case (Cons v vs)
  then obtain dbm where
    1: "process_alleles ts ir n sq v db (enumerate 0 (alleles v)) = Inr dbm"
    and 2: "process_variants ts ir n sq dbm vs = Inr db'"
    by (auto split: sum.splits)
  from Cons.IH [OF 2] process_alleles_ident [OF 1] show ?case by simp
qed

lemma fill_Inr:
  assumes "fill regions ts db = Inr db1"
  shows "\<exists>st sq dbr.
           resolve_all regions ts initial_state (enumerate 0 (ts_individuals ts)) = Inr st
           \<and> reconcile (individuals st) db = Inr (sq, dbr)
           \<and> process_variants ts (individual_regions st) (num_regions regions) sq dbr
                (ts_variants ts) = Inr db1
           \<and> ts_variants ts \<noteq> []"
  using assms by (auto simp: fill_def split: sum.splits prod.splits if_splits)

lemma reconcile_tables:
  assumes "reconcile inds db = Inr (sq, dbr)"
  shows "num_regions_table dbr = num_regions_table db"
    and "individual_table db \<noteq> [] \<Longrightarrow> dbr = db"
    and "individual_table db = [] \<Longrightarrow> individual_table dbr = map new_row (map snd inds)"
  using assms by (auto simp: reconcile_def Let_def split: sum.splits if_splits)

section \<open>A first run\<close>

lemma demo_own_names:
  "\<forall>ind \<in> set (ts_individuals demo_ts). own_name ind \<noteq> None"
  "distinct (map own_name (ts_individuals demo_ts))"
  by (simp_all add: demo_ts_def own_name_def name_and_source_def)

text \<open>
  Claim C10, for individuals with pairwise different names. On a successful run against
  an empty individual table, when every individual's metadata has one of the three name
  keys and no two individuals have the same name: the rows inserted are, in order, one
  row per individual of the dataset, with the individual's position in the tree
  sequence as identifier, its own name, its own region and all four counters zero; the
  identifier mapping sends every identifier of the tree sequence to itself and is
  defined nowhere else; and after the run the table still has exactly these
  identifiers, names and regions.
\<close>

theorem every_individual_inserted:
  assumes "fill regions ts db = Inr db'"
    and "individual_table db = []"
    and "\<forall>ind \<in> set (ts_individuals ts). own_name ind \<noteq> None"
    and "distinct (map own_name (ts_individuals ts))"
  shows "\<exists>st sql_ids db1.
           resolve_all regions ts initial_state (enumerate 0 (ts_individuals ts)) = Inr st
           \<and> reconcile (individuals st) db = Inr (sql_ids, db1)
           \<and> process_variants ts (individual_regions st) (num_regions regions) sql_ids db1
                (ts_variants ts) = Inr db'
           \<and> individual_table db1 = map (own_row regions ts) (enumerate 0 (ts_individuals ts))
           \<and> (\<forall>a b. sql_ids a = Some b \<longleftrightarrow>
                 a = b \<and> 0 \<le> a \<and> a < int (length (ts_individuals ts)))
           \<and> map ident (individual_table db') =
               map ident (map (own_row regions ts) (enumerate 0 (ts_individuals ts)))"
proof -
  let ?xs = "ts_individuals ts"
  from fill_Inr [OF assms(1)] obtain st sq dbr where
    rs: "resolve_all regions ts initial_state (enumerate 0 ?xs) = Inr st"
    and rc: "reconcile (individuals st) db = Inr (sq, dbr)"
    and pv: "process_variants ts (individual_regions st) (num_regions regions) sq dbr
               (ts_variants ts) = Inr db'"
    by blast
  have L: "individuals st =
             map (\<lambda>p. (name (own_row regions ts p), ident (own_row regions ts p)))
               (enumerate 0 ?xs)"
    using rs assms(3,4) by (rule resolve_all_own)
  have rows: "individual_table dbr = map (own_row regions ts) (enumerate 0 ?xs)"
    by (simp add: reconcile_tables(3) [OF rc assms(2)] L o_def new_row_own_row)
  have sq: "sq = fold (\<lambda>i m. m(fst i \<mapsto> fst i)) (map snd (individuals st)) Map.empty"
    using rc assms(2) by (simp add: reconcile_def)
  have "fst ` set (map snd (individuals st)) = int ` {0..<length ?xs}"
  proof -
    have "map fst (map snd (individuals st)) = map (int \<circ> fst) (enumerate 0 ?xs)"
      by (simp add: L o_def ident_def own_row_def)
    also have "\<dots> = map int (map fst (enumerate 0 ?xs))"
      by (simp only: map_map)
    also have "\<dots> = map int [0..<length ?xs]"
      by (simp only: map_fst_enumerate) simp
    finally have "set (map fst (map snd (individuals st))) = set (map int [0..<length ?xs])"
      by simp
    then show ?thesis by (simp only: set_map set_upt)
  qed
  then have ids: "\<forall>a b. sq a = Some b \<longleftrightarrow> a = b \<and> 0 \<le> a \<and> a < int (length ?xs)"
    by (auto simp: sq fold_identity_map in_int_range [symmetric])
  from process_variants_ident [OF pv]
  have "map ident (individual_table db') =
          map ident (map (own_row regions ts) (enumerate 0 ?xs))"
    by (simp only: rows)
  with rs rc pv rows ids show ?thesis by blast
qed

theorem every_individual_inserted_witness:
  "reconcile (individuals demo_state) init = Inr (demo_sql_ids, demo_reconciled)
   \<and> individual_table demo_reconciled =
       map (own_row demo_regions demo_ts) (enumerate 0 (ts_individuals demo_ts))
   \<and> map (\<lambda>r. (row_id r, name r, region r, all_regions r, some_regions r, one_region r,
                 one_person r)) (individual_table demo_reconciled) =
       [(0, ''ann'', ''A'', 0, 0, 0, 0), (1, ''bob'', ''B'', 0, 0, 0, 0)]
   \<and> demo_sql_ids 0 = Some 0 \<and> demo_sql_ids 1 = Some 1 \<and> demo_sql_ids 2 = None
   \<and> map ident (individual_table demo_filled) = [(0, ''ann'', ''A''), (1, ''bob'', ''B'')]"
proof -
  have 2: "individual_table init = []" by (simp add: init_def)
  from every_individual_inserted [OF demo_fill 2 demo_own_names] obtain st sql_ids db1 where
    rs: "resolve_all demo_regions demo_ts initial_state (enumerate 0 (ts_individuals demo_ts))
           = Inr st"
    and rc: "reconcile (individuals st) init = Inr (sql_ids, db1)"
    and rows: "individual_table db1 =
                 map (own_row demo_regions demo_ts) (enumerate 0 (ts_individuals demo_ts))"
    by blast
  from rs demo_resolve have st: "st = demo_state" by simp
  from rc demo_reconcile have e: "sql_ids = demo_sql_ids" "db1 = demo_reconciled"
    by (simp_all add: st)
  from rows have R: "individual_table demo_reconciled =
       map (own_row demo_regions demo_ts) (enumerate 0 (ts_individuals demo_ts))"
    by (simp only: e)
  have rest: "map (\<lambda>r. (row_id r, name r, region r, all_regions r, some_regions r, one_region r,
                 one_person r)) (individual_table demo_reconciled) =
       [(0, ''ann'', ''A'', 0, 0, 0, 0), (1, ''bob'', ''B'', 0, 0, 0, 0)]
   \<and> demo_sql_ids 0 = Some 0 \<and> demo_sql_ids 1 = Some 1 \<and> demo_sql_ids 2 = None
   \<and> map ident (individual_table demo_filled) = [(0, ''ann'', ''A''), (1, ''bob'', ''B'')]"
    by (simp add: demo_reconciled_def demo_sql_ids_def demo_filled_def ident_def)
  from demo_reconcile R rest show ?thesis by blast
qed

text \<open>
  Claim C10 as worded has every individual inserted under its own identifier. The dict
  \<open>individuals\<close> is keyed by name: of two individuals with the same name the second
  replaces the first, and the store receives the single row of identifier 1.
\<close>

theorem repeated_name_inserted_once_counterexample:
  "length (ts_individuals twin_ts) = 2
   \<and> map own_name (ts_individuals twin_ts) = [Some ''ann'', Some ''ann'']
   \<and> fill demo_regions twin_ts init =
       Inr \<lparr>individual_table =
              [\<lparr>row_id = 1, name = ''ann'', region = ''A'',
                all_regions = 0, some_regions = 0, one_region = 0, one_person = 1\<rparr>],
            num_regions_table =
              [(''all_regions'', 0), (''some_regions'', 0), (''one_region'', 0),
               (''one_person'', 1)]\<rparr>"
  by (simp add: eval_defs demo_regions_def twin_ts_def own_name_def upt_rec)

section \<open>Reconciliation against a stored table\<close>









section \<open>A second run over the same file\<close>

lemma map_eq_nth:
  assumes "map f xs = map f ys" and "j < length ys"
  shows "f (xs ! j) = f (ys ! j)"
proof -
  have "length xs = length ys" using assms(1) by (rule map_eq_imp_length_eq)
  with assms(2) have "map f xs ! j = f (xs ! j)" "map f ys ! j = f (ys ! j)" by simp_all
  with assms(1) show ?thesis by simp
qed

lemma fold_update_counter:
  "j < length T \<Longrightarrow>
   counter c' (fold (update_individual c) ps T ! j) =
     counter c' (T ! j) + (if c' = c then int (count_list ps (row_id (T ! j))) else 0)"
proof (induction ps arbitrary: T)
  case Nil
  then show ?case by simp
next
  case (Cons p ps)
  have len: "j < length (update_individual c p T)"
    using Cons.prems by (simp add: update_individual_def)
  have nth: "update_individual c p T ! j =
               (if row_id (T ! j) = p then increment c (T ! j) else T ! j)"
    using Cons.prems by (simp add: update_individual_def)
  have rid: "row_id (update_individual c p T ! j) = row_id (T ! j)"
    by (simp add: nth row_id_increment)
  have "counter c' (fold (update_individual c) (p # ps) T ! j) =
          counter c' (fold (update_individual c) ps (update_individual c p T) ! j)"
    by simp
  also have "\<dots> = counter c' (update_individual c p T ! j)
                 + (if c' = c then int (count_list ps (row_id (update_individual c p T ! j)))
                    else 0)"
    by (rule Cons.IH [OF len])
  also have "\<dots> = counter c' (T ! j)
                 + (if c' = c then int (count_list (p # ps) (row_id (T ! j))) else 0)"
    unfolding rid by (auto simp: nth counter_increment)
  finally show ?case .
qed

lemma shifted_apply_event:
  assumes "shifted d e db db'"
  shows "shifted d e (apply_event c ps db) (apply_event c ps db')"
proof -
  let ?T = "individual_table db" and ?T' = "individual_table db'"
  let ?N = "num_regions_table db" and ?N' = "num_regions_table db'"
  have i: "map ident ?T' = map ident ?T" and f: "map fst ?N' = map fst ?N"
    and cs: "\<And>j c. j < length ?T \<Longrightarrow> counter c (?T' ! j) = counter c (?T ! j) + d j c"
    and ns: "\<And>j. j < length ?N \<Longrightarrow> snd (?N' ! j) = snd (?N ! j) + e j"
    using assms by (simp_all add: shifted_def)
  have lT: "length ?T' = length ?T" using i by (rule map_eq_imp_length_eq)
  have lN: "length ?N' = length ?N" using f by (rule map_eq_imp_length_eq)
  have 1: "map ident (individual_table (apply_event c ps db')) =
           map ident (individual_table (apply_event c ps db))"
    by (simp add: apply_event_ident i)
  have 3: "map fst (num_regions_table (apply_event c ps db')) =
           map fst (num_regions_table (apply_event c ps db))"
    by (simp add: apply_event_ident f)
  have 2: "counter c' (individual_table (apply_event c ps db') ! j) =
           counter c' (individual_table (apply_event c ps db) ! j) + d j c'"
    if "j < length (individual_table (apply_event c ps db))" for j c'
  proof -
    from that have j: "j < length ?T"
      using map_eq_imp_length_eq [OF apply_event_ident(1) [of c ps db]] by simp
    have "ident (?T' ! j) = ident (?T ! j)" using i j by (rule map_eq_nth)
    then have r: "row_id (?T' ! j) = row_id (?T ! j)" by (simp add: ident_def)
    show ?thesis
      using j lT by (simp add: apply_event_def fold_update_counter r cs)
  qed
  have 4: "snd (num_regions_table (apply_event c ps db') ! j) =
           snd (num_regions_table (apply_event c ps db) ! j) + e j"
    if "j < length (num_regions_table (apply_event c ps db))" for j
  proof -
    from that have j: "j < length ?N"
      using map_eq_imp_length_eq [OF apply_event_ident(2) [of c ps db]] by simp
    have "fst (?N' ! j) = fst (?N ! j)" using f j by (rule map_eq_nth)
    then show ?thesis
      using j lN by (simp add: apply_event_def update_num_regions_nth ns)
  qed
  from 1 2 3 4 show ?thesis by (simp add: shifted_def)
qed

lemma shifted_process_allele:
  assumes "shifted d e db db'" and "process_allele ts ir n sq v db p = Inr dbA"
  shows "\<exists>dbB. process_allele ts ir n sq v db' p = Inr dbB \<and> shifted d e dbA dbB"
  using assms
  by (auto simp: process_allele_def shifted_apply_event split: prod.splits if_splits sum.splits)

lemma shifted_process_alleles:
  assumes "shifted d e db db'" and "process_alleles ts ir n sq v db ps = Inr dbA"
  shows "\<exists>dbB. process_alleles ts ir n sq v db' ps = Inr dbB \<and> shifted d e dbA dbB"
  using assms
proof (induction ps arbitrary: db db')
  case Nil
  then show ?case by simp
next
  case (Cons p ps)
  then obtain dbm where 1: "process_allele ts ir n sq v db p = Inr dbm"
    and 2: "process_alleles ts ir n sq v dbm ps = Inr dbA"
    by (auto split: sum.splits)
  from shifted_process_allele [OF Cons.prems(1) 1] obtain dbm' where
    3: "process_allele ts ir n sq v db' p = Inr dbm'" and 4: "shifted d e dbm dbm'"
    by blast
  from Cons.IH [OF 4 2] 3 show ?case by simp
qed

lemma shifted_process_variants:
  assumes "shifted d e db db'" and "process_variants ts ir n sq db vs = Inr dbA"
  shows "\<exists>dbB. process_variants ts ir n sq db' vs = Inr dbB \<and> shifted d e dbA dbB"
  using assms
proof (induction vs arbitrary: db db')
  case Nil
  then show ?case by simp
next
  case (Cons v vs)
  then obtain dbm where
    1: "process_alleles ts ir n sq v db (enumerate 0 (alleles v)) = Inr dbm"
    and 2: "process_variants ts ir n sq dbm vs = Inr dbA"
    by (auto split: sum.splits)
  from shifted_process_alleles [OF Cons.prems(1) 1] obtain dbm' where
    3: "process_alleles ts ir n sq v db' (enumerate 0 (alleles v)) = Inr dbm'"
    and 4: "shifted d e dbm dbm'"
    by blast
  from Cons.IH [OF 4 2] 3 show ?case by simp
qed

lemma sql_ids_of_rows_cong:
  "map ident rows = map ident rows' \<Longrightarrow>
   sql_ids_of_rows inds m rows = sql_ids_of_rows inds m rows'"
proof (induction rows arbitrary: rows' m)
  case Nil
  then show ?case by simp
next
  case (Cons r rows)
  then obtain r' rest where rows': "rows' = r' # rest" and i: "ident r = ident r'"
    and m: "map ident rows = map ident rest"
    by (cases rows') auto
  from i have nm: "name r = name r'" and rid: "row_id r = row_id r'"
    by (simp_all add: ident_def)
  show ?case
  proof (cases "lookup (map_of inds) (name r)")
    case (Inl x)
    then show ?thesis using nm by (simp add: rows')
  next
    case (Inr e)
    have "sql_ids_of_rows inds m (r # rows) =
            sql_ids_of_rows inds (m(fst e \<mapsto> row_id r)) rows"
      using Inr by simp
    also have "\<dots> = sql_ids_of_rows inds (m(fst e \<mapsto> row_id r)) rest"
      by (rule Cons.IH [OF m])
    also have "\<dots> = sql_ids_of_rows inds m (r' # rest)"
      using Inr nm rid by simp
    finally show ?thesis by (simp only: rows')
  qed
qed

lemma sql_ids_of_new_rows:
  assumes "\<forall>e \<in> set es. map_of inds (fst (snd e)) = Some e" and "map ident rows = es"
  shows "sql_ids_of_rows inds m rows = Inr (fold (\<lambda>i m. m(fst i \<mapsto> fst i)) es m)"
  using assms
proof (induction rows arbitrary: es m)
  case Nil
  then show ?case by simp
next
  case (Cons r rows)
  then obtain rest where es: "es = ident r # rest" and m: "map ident rows = rest"
    by auto
  have l: "lookup (map_of inds) (name r) = Inr (ident r)"
    using Cons.prems(1) by (simp add: es lookup_def ident_def)
  have fid: "fst (ident r) = row_id r" by (simp add: ident_def)
  have rest: "\<forall>e \<in> set rest. map_of inds (fst (snd e)) = Some e"
    using Cons.prems(1) by (simp add: es)
  have "sql_ids_of_rows inds m (r # rows) =
          sql_ids_of_rows inds (m(fst (ident r) \<mapsto> row_id r)) rows"
    using l by simp
  also have "\<dots> = Inr (fold (\<lambda>i m. m(fst i \<mapsto> fst i)) rest (m(fst (ident r) \<mapsto> row_id r)))"
    by (rule Cons.IH [OF rest m])
  also have "\<dots> = Inr (fold (\<lambda>i m. m(fst i \<mapsto> fst i)) (ident r # rest) m)"
    by (simp add: fid)
  finally show ?case by (simp only: es)
qed

lemma well_keyed_map_of:
  assumes "well_keyed ir inds" and "e \<in> set (map snd inds)"
  shows "map_of inds (fst (snd e)) = Some e"
proof -
  from assms(2) obtain p where p: "p \<in> set inds" and e: "e = snd p" by auto
  with assms(1) have "fst (snd e) = fst p" by (simp add: well_keyed_def)
  moreover have "map_of inds (fst p) = Some (snd p)"
    using assms(1) p by (simp add: well_keyed_def)
  ultimately show ?thesis by (simp add: e)
qed

lemma reconcile_again:
  assumes wk: "well_keyed ir inds"
    and r: "reconcile inds db = Inr (sq, dbr)"
    and i: "map ident (individual_table db1) = map ident (individual_table dbr)"
  shows "reconcile inds db1 = Inr (sq, db1)"
proof (cases "individual_table db = []")
  case False
  then have s: "sql_ids_of_rows inds Map.empty (individual_table db) = Inr sq" and d: "dbr = db"
    using r by (auto simp: reconcile_def Let_def split: sum.splits)
  have ne: "individual_table db1 \<noteq> []"
    using i False map_eq_imp_length_eq [OF i] by (auto simp: d)
  have "sql_ids_of_rows inds Map.empty (individual_table db1) = Inr sq"
    using sql_ids_of_rows_cong [OF i, of inds Map.empty] s by (simp add: d)
  with ne show ?thesis by (simp add: reconcile_def)
next
  case True
  let ?es = "map snd inds"
  from True r have sq: "sq = fold (\<lambda>i m. m(fst i \<mapsto> fst i)) ?es Map.empty"
    and t: "individual_table dbr = map new_row ?es"
    by (auto simp: reconcile_def Let_def)
  have m: "map ident (individual_table db1) = ?es"
    by (simp add: i t o_def ident_new_row)
  show ?thesis
  proof (cases "inds = []")
    case True
    then have e: "individual_table db1 = []" using m by simp
    then have "db1\<lparr>individual_table := []\<rparr> = db1" by (cases db1) simp
    then show ?thesis using e True by (simp add: reconcile_def sq)
  next
    case False
    then have ne: "individual_table db1 \<noteq> []" using m by auto
    have "\<forall>e \<in> set ?es. map_of inds (fst (snd e)) = Some e"
      using wk by (blast intro: well_keyed_map_of)
    from sql_ids_of_new_rows [OF this m]
    have "sql_ids_of_rows inds Map.empty (individual_table db1) = Inr sq"
      by (simp add: sq)
    with ne show ?thesis by (simp add: reconcile_def)
  qed
qed

text \<open>
  Claim C5, as the code has it. After a successful run, a second run over the same tree
  sequence and the same static mapping succeeds too, keeps the rows, and adds to every
  counter of every row and to every total exactly what the first run added: nothing
  guards against aggregating a file twice. (A row inserted by the first run started
  from zero.)
\<close>

theorem second_run_adds_again:
  assumes "fill regions ts db = Inr db1"
  shows "\<exists>db2. fill regions ts db1 = Inr db2
           \<and> length (individual_table db2) = length (individual_table db1)
           \<and> (\<forall>j < length (individual_table db1). \<forall>c.
                 counter c (individual_table db2 ! j) - counter c (individual_table db1 ! j) =
                 counter c (individual_table db1 ! j)
                 - (if individual_table db = [] then 0 else counter c (individual_table db ! j)))
           \<and> length (num_regions_table db2) = length (num_regions_table db)
           \<and> length (num_regions_table db1) = length (num_regions_table db)
           \<and> (\<forall>j < length (num_regions_table db).
                 snd (num_regions_table db2 ! j) - snd (num_regions_table db1 ! j) =
                 snd (num_regions_table db1 ! j) - snd (num_regions_table db ! j))"
proof -
  from fill_Inr [OF assms] obtain st sq dbr where
    rs: "resolve_all regions ts initial_state (enumerate 0 (ts_individuals ts)) = Inr st"
    and rc: "reconcile (individuals st) db = Inr (sq, dbr)"
    and pv: "process_variants ts (individual_regions st) (num_regions regions) sq dbr
               (ts_variants ts) = Inr db1"
    and ne: "ts_variants ts \<noteq> []"
    by blast
  let ?d = "\<lambda>j c. counter c (individual_table db1 ! j) - counter c (individual_table dbr ! j)"
  let ?e = "\<lambda>j. snd (num_regions_table db1 ! j) - snd (num_regions_table dbr ! j)"
  have wk: "well_keyed (individual_regions st) (individuals st)"
    using rs by (rule resolve_all_initial_well_keyed)
  note id = process_variants_ident [OF pv]
  have sh: "shifted ?d ?e dbr db1"
    using id by (simp add: shifted_def)
  from shifted_process_variants [OF sh pv] obtain db2 where
    pv2: "process_variants ts (individual_regions st) (num_regions regions) sq db1
            (ts_variants ts) = Inr db2"
    and sh2: "shifted ?d ?e db1 db2"
    by blast
  have rc2: "reconcile (individuals st) db1 = Inr (sq, db1)"
    using wk rc id [THEN conjunct1] by (rule reconcile_again)
  have f2: "fill regions ts db1 = Inr db2"
    by (simp add: fill_def rs rc2 pv2 ne)
  have lT: "length (individual_table db1) = length (individual_table dbr)"
    using id [THEN conjunct1] by (rule map_eq_imp_length_eq)
  have lN: "length (num_regions_table db1) = length (num_regions_table db)"
    using map_eq_imp_length_eq [OF id [THEN conjunct2]] by (simp add: reconcile_tables(1) [OF rc])
  have lT2: "length (individual_table db2) = length (individual_table db1)"
    using sh2 map_eq_imp_length_eq [of ident "individual_table db2" ident "individual_table db1"]
    by (simp add: shifted_def)
  have lN2: "length (num_regions_table db2) = length (num_regions_table db)"
    using sh2 map_eq_imp_length_eq [of fst "num_regions_table db2" fst "num_regions_table db1"] lN
    by (simp add: shifted_def)
  have c0: "counter c (individual_table dbr ! j) =
              (if individual_table db = [] then 0 else counter c (individual_table db ! j))"
    if "j < length (individual_table db1)" for j c
  proof (cases "individual_table db = []")
    case True
    from that lT have "j < length (individuals st)"
      by (simp add: reconcile_tables(3) [OF rc True])
    then have "individual_table dbr ! j = new_row (snd (individuals st ! j))"
      by (simp add: reconcile_tables(3) [OF rc True])
    then show ?thesis
      by (simp add: True counter_new_row)
  next
    case False
    then show ?thesis by (simp add: reconcile_tables(2) [OF rc False])
  qed
  have rows: "counter c (individual_table db2 ! j) - counter c (individual_table db1 ! j) =
                 counter c (individual_table db1 ! j)
                 - (if individual_table db = [] then 0 else counter c (individual_table db ! j))"
    if "j < length (individual_table db1)" for j c
    using sh2 that c0 [OF that, of c] by (simp add: shifted_def)
  have totals: "snd (num_regions_table db2 ! j) - snd (num_regions_table db1 ! j) =
                 snd (num_regions_table db1 ! j) - snd (num_regions_table db ! j)"
    if "j < length (num_regions_table db)" for j
    using sh2 that lN by (simp add: shifted_def reconcile_tables(1) [OF rc])
  from f2 lT2 rows lN2 lN totals show ?thesis by blast
qed

theorem second_run_adds_again_witness:
  "fill demo_regions demo_ts demo_filled = Inr demo_twice
   \<and> counter Some_regions (individual_table demo_twice ! 0)
       - counter Some_regions (individual_table demo_filled ! 0) =
     counter Some_regions (individual_table demo_filled ! 0) - 0"
proof -
  from second_run_adds_again [OF demo_fill] obtain db2 where
    f: "fill demo_regions demo_ts demo_filled = Inr db2"
    and r: "\<forall>j < length (individual_table demo_filled). \<forall>c.
                 counter c (individual_table db2 ! j) - counter c (individual_table demo_filled ! j) =
                 counter c (individual_table demo_filled ! j)
                 - (if individual_table init = [] then 0 else counter c (individual_table init ! j))"
    by blast
  have t: "fill demo_regions demo_ts demo_filled = Inr demo_twice"
    by (simp add: eval_defs demo_regions_def demo_ts_def demo_variant_def demo_filled_def
          demo_twice_def upt_rec)
  with f have e: "db2 = demo_twice" by simp
  have "0 < length (individual_table demo_filled)" by (simp add: demo_filled_def)
  with r have "counter Some_regions (individual_table db2 ! 0)
                 - counter Some_regions (individual_table demo_filled ! 0) =
               counter Some_regions (individual_table demo_filled ! 0)
                 - (if individual_table init = [] then 0
                    else counter Some_regions (individual_table init ! 0))"
    by blast
  then show ?thesis using t by (simp add: e init_def)
qed

text \<open>
  Claim C5 as worded asks that the second run leave the counts of the first. On the
  example the second run turns every \<open>some_regions\<close> counter and the \<open>some_regions\<close> total
  from 1 into 2.
\<close>

theorem second_run_doubles_counterexample:
  "fill demo_regions demo_ts init = Inr demo_filled
   \<and> fill demo_regions demo_ts demo_filled = Inr demo_twice
   \<and> demo_twice \<noteq> demo_filled
   \<and> map some_regions (individual_table demo_filled) = [1, 1]
   \<and> map some_regions (individual_table demo_twice) = [2, 2]
   \<and> map_of (num_regions_table demo_filled) ''some_regions'' = Some 1
   \<and> map_of (num_regions_table demo_twice) ''some_regions'' = Some 2"
  using demo_fill
  by (simp add: eval_defs demo_regions_def demo_ts_def demo_variant_def demo_filled_def
        demo_twice_def upt_rec)

section \<open>The report\<close>

lemma avg_times_length:
  "xs \<noteq> [] \<Longrightarrow> avg xs * real (length xs) = real_of_int (sum_list xs)"
  by (simp add: avg_def)

text \<open>
  Claim C9. \<open>fetch\<close> returns one row per distinct region of the individual table, in the
  order of the regions; the four numbers of a row are the arithmetic means of the four
  counters over the individuals of the region (each times the size of the group is the
  sum of the counter over the group, and the group is not empty); and a region of
  exactly two individuals with counters (2, 1, 0, 0) and (0, 1, 2, 0) is reported with
  means 1 for \<open>all_regions\<close> and 1 for \<open>some_regions\<close> (and 1 and 0 for the other two).
\<close>

theorem fetch_region_means:
  "map fst (fetch db) = sort (remdups (map region (individual_table db)))
   \<and> (\<forall>row \<in> set (fetch db).
        case row of (g, a, s, r, p) \<Rightarrow>
          (let grp = filter (\<lambda>x. region x = g) (individual_table db) in
           grp \<noteq> []
           \<and> a * real (length grp) = real_of_int (sum_list (map all_regions grp))
           \<and> s * real (length grp) = real_of_int (sum_list (map some_regions grp))
           \<and> r * real (length grp) = real_of_int (sum_list (map one_region grp))
           \<and> p * real (length grp) = real_of_int (sum_list (map one_person grp))))
   \<and> (\<forall>g x y.
        filter (\<lambda>r. region r = g) (individual_table db) = [x, y]
        \<and> (all_regions x, some_regions x, one_region x, one_person x) = (2, 1, 0, 0)
        \<and> (all_regions y, some_regions y, one_region y, one_person y) = (0, 1, 2, 0)
        \<longrightarrow> (g, 1, 1, 1, 0) \<in> set (fetch db))"
proof (intro conjI allI impI ballI)
  show "map fst (fetch db) = sort (remdups (map region (individual_table db)))"
    by (simp add: fetch_def Let_def o_def)
next
  fix row assume "row \<in> set (fetch db)"
  then obtain g where g: "g \<in> set (map region (individual_table db))"
    and row: "row = (g, avg (map all_regions (filter (\<lambda>x. region x = g) (individual_table db))),
                       avg (map some_regions (filter (\<lambda>x. region x = g) (individual_table db))),
                       avg (map one_region (filter (\<lambda>x. region x = g) (individual_table db))),
                       avg (map one_person (filter (\<lambda>x. region x = g) (individual_table db))))"
    by (auto simp: fetch_def Let_def)
  from g have ne: "filter (\<lambda>x. region x = g) (individual_table db) \<noteq> []"
    by (auto simp: filter_empty_conv)
  then have ne': "\<And>f. map f (filter (\<lambda>x. region x = g) (individual_table db)) \<noteq> []"
    by simp
  show "case row of (g, a, s, r, p) \<Rightarrow>
          (let grp = filter (\<lambda>x. region x = g) (individual_table db) in
           grp \<noteq> []
           \<and> a * real (length grp) = real_of_int (sum_list (map all_regions grp))
           \<and> s * real (length grp) = real_of_int (sum_list (map some_regions grp))
           \<and> r * real (length grp) = real_of_int (sum_list (map one_region grp))
           \<and> p * real (length grp) = real_of_int (sum_list (map one_person grp)))"
    using ne avg_times_length [OF ne' [of all_regions]] avg_times_length [OF ne' [of some_regions]]
      avg_times_length [OF ne' [of one_region]] avg_times_length [OF ne' [of one_person]]
    by (simp add: row Let_def)
next
  fix g x y
  assume a: "filter (\<lambda>r. region r = g) (individual_table db) = [x, y]
        \<and> (all_regions x, some_regions x, one_region x, one_person x) = (2, 1, 0, 0)
        \<and> (all_regions y, some_regions y, one_region y, one_person y) = (0, 1, 2, 0)"
  then have "x \<in> set (filter (\<lambda>r. region r = g) (individual_table db))" by simp
  then have g: "g \<in> set (sort (remdups (map region (individual_table db))))" by auto
  have eq: "(g, 1, 1, 1, 0) =
        (let grp = filter (\<lambda>r. region r = g) (individual_table db)
              in (g, avg (map all_regions grp), avg (map some_regions grp),
                     avg (map one_region grp), avg (map one_person grp)))"
    using a by (simp add: avg_def)
  from eq g show "(g, 1, 1, 1, 0) \<in> set (fetch db)"
    unfolding fetch_def set_map by (rule image_eqI)
qed

theorem fetch_region_means_witness:
  "fetch east_store = [(''East'', 1, 1, 1, 0)]"
proof -
  have f: "filter (\<lambda>r. region r = ''East'') (individual_table east_store) =
             [individual_table east_store ! 0, individual_table east_store ! 1]"
    by (simp add: east_store_def)
  have "(''East'', 1, 1, 1, 0) \<in> set (fetch east_store)"
    using fetch_region_means [of east_store] f by (simp add: east_store_def)
  moreover have "length (fetch east_store) = 1"
    by (simp add: fetch_def east_store_def)
  ultimately show ?thesis
    by (cases "fetch east_store") auto
qed

end
